theory Spec2Isabelle
  imports Main
begin

section \<open>Strings and collaborator calls\<close>

text \<open>
  JavaScript strings are modelled as \<^typ>\<open>string\<close>. \<open>startsWith\<close> and \<open>str_includes\<close>
  are \<open>String.prototype.startsWith\<close> and \<open>String.prototype.includes\<close>.
\<close>

fun startsWith :: "string \<Rightarrow> string \<Rightarrow> bool" where
  "startsWith s [] = True"
| "startsWith [] (p # ps) = False"
| "startsWith (c # cs) (p # ps) = (c = p \<and> startsWith cs ps)"

fun str_includes :: "string \<Rightarrow> string \<Rightarrow> bool" where
  "str_includes [] sub = (sub = [])"
| "str_includes (c # cs) sub = (startsWith (c # cs) sub \<or> str_includes cs sub)"

text \<open>
  A value of JavaScript counts as true in a condition unless it is \<open>undefined\<close>,
  \<open>null\<close> or the empty string; an optional string is \<open>None\<close> for the first two.
\<close>

definition truthy :: "string option \<Rightarrow> bool" where
  "truthy v = (case v of None \<Rightarrow> False | Some s \<Rightarrow> s \<noteq> [])"

text \<open>
  An awaited call on the page handle or on another collaborator either gives a value
  or throws an \<open>Error\<close> with a message.
\<close>

datatype error = Error string

datatype 'a attempt = Returns 'a | Throws string

text \<open>
  What a function did to the page: navigations, clicks, typed text, key presses,
  scrolls and requests sent from the page, in the order they were issued.
\<close>

datatype page_action =
    Goto string
  | ClickRecentTab
  | ScrollToBottom
  | ScrollBy nat
  | Post string
  | Click string
  | ClearInput
  | TypeText string
  | PressEnter

section \<open>Permalink canonicalization\<close>

text \<open>
  \<open>clean\<close> (instagram-functions.js, lines 41-47 and 173-178) is
  \<^verbatim>\<open>new URL(u, location.origin)\<close> followed by \<^verbatim>\<open>`${url.origin}${url.pathname}`\<close>,
  with \<open>null\<close> when the constructor throws. The constructor is the browser's; it is
  modelled here after the URL standard, for the page origin of the listing and post pages:
  \<^item> the fragment starts at the first \<open>#\<close>, the query at the first \<open>?\<close> before it;
  \<^item> a scheme is a letter followed by letters, digits, \<open>+\<close>, \<open>-\<close> or \<open>.\<close>, up to a
    \<open>:\<close>;
  \<^item> for \<open>http\<close>, \<open>https\<close>, \<open>ftp\<close>, \<open>ws\<close> and \<open>wss\<close> the origin is
    scheme, \<open>://\<close> and host (with its port, without credentials), the path starts at the
    first \<open>/\<close> after the host and is \<open>/\<close> when absent, and an empty host is an error;
  \<^item> for every other scheme the origin is opaque and its serialization is the
    string \<open>null\<close>;
  \<^item> an input without scheme is resolved against the base, whose path is \<open>/\<close>.

  Not modelled: percent-encoding, removal of dot segments, lower-casing of scheme and
  host, elision of default ports, stripping of white space, backslashes.
\<close>

record url =
  origin :: string
  pathname :: string
  search :: string
  hash :: string

definition location_origin :: string where
  "location_origin = ''https://www.instagram.com''"

definition location_scheme :: string where
  "location_scheme = ''https''"

definition is_alpha :: "char \<Rightarrow> bool" where
  "is_alpha c = (c \<in> set ''abcdefghijklmnopqrstuvwxyzABCDEFGHIJKLMNOPQRSTUVWXYZ'')"

definition is_scheme_char :: "char \<Rightarrow> bool" where
  "is_scheme_char c = (is_alpha c \<or> c \<in> set ''0123456789+-.'')"

definition split_scheme :: "string \<Rightarrow> (string \<times> string) option" where
  "split_scheme s =
     (case (takeWhile is_scheme_char s, dropWhile is_scheme_char s) of
        (c # cs, d # ds) \<Rightarrow> if is_alpha c \<and> d = CHR '':'' then Some (c # cs, ds) else None
      | _ \<Rightarrow> None)"

definition tuple_origin_schemes :: "string list" where
  "tuple_origin_schemes = [''http'', ''https'', ''ftp'', ''ws'', ''wss'']"

definition strip_userinfo :: "string \<Rightarrow> string" where
  "strip_userinfo auth = rev (takeWhile (\<lambda>c. c \<noteq> CHR ''@'') (rev auth))"

definition parse_authority :: "string \<Rightarrow> string \<Rightarrow> string \<Rightarrow> string \<Rightarrow> url option" where
  "parse_authority scheme rest q f =
     (let r = dropWhile (\<lambda>c. c = CHR ''/'') rest;
          host = strip_userinfo (takeWhile (\<lambda>c. c \<noteq> CHR ''/'') r);
          path = dropWhile (\<lambda>c. c \<noteq> CHR ''/'') r
      in if host = [] then None
         else Some \<lparr>origin = scheme @ ''://'' @ host,
                    pathname = (if path = [] then ''/'' else path),
                    search = q, hash = f\<rparr>)"

definition parse_relative :: "string \<Rightarrow> string \<Rightarrow> string \<Rightarrow> url option" where
  "parse_relative body q f =
     (if startsWith body ''//'' then parse_authority location_scheme body q f
      else Some \<lparr>origin = location_origin,
                 pathname = (if startsWith body ''/'' then body else ''/'' @ body),
                 search = q, hash = f\<rparr>)"

definition parse_url :: "string \<Rightarrow> url option" where
  "parse_url u =
     (let f = dropWhile (\<lambda>c. c \<noteq> CHR ''#'') u;
          nofrag = takeWhile (\<lambda>c. c \<noteq> CHR ''#'') u;
          q = dropWhile (\<lambda>c. c \<noteq> CHR ''?'') nofrag;
          body = takeWhile (\<lambda>c. c \<noteq> CHR ''?'') nofrag
      in case split_scheme body of
           None \<Rightarrow> parse_relative body q f
         | Some (scheme, rest) \<Rightarrow>
             if scheme \<in> set tuple_origin_schemes then
               (if scheme = location_scheme \<and> \<not> startsWith rest ''//''
                then parse_relative rest q f
                else parse_authority scheme rest q f)
             else Some \<lparr>origin = ''null'',
                        pathname = (if startsWith rest ''//''
                                    then dropWhile (\<lambda>c. c \<noteq> CHR ''/'') (drop 2 rest)
                                    else rest),
                        search = q, hash = f\<rparr>)"

definition clean :: "string \<Rightarrow> string option" where
  "clean u = (case parse_url u of None \<Rightarrow> None | Some url \<Rightarrow> Some (origin url @ pathname url))"


section \<open>Discovery\<close>

text \<open>
  The module keeps \<open>allDiscoveredPosts\<close> (a \<open>Set\<close>), \<open>isOnSearchPage\<close> and
  \<open>currentSearchUrl\<close> as globals (lines 8-12). A JavaScript \<open>Set\<close> keeps its elements
  in insertion order without duplicates: it is a list here, \<open>has\<close> is membership and
  \<open>add\<close> appends an element that is not there yet.
\<close>

definition set_has :: "string list \<Rightarrow> string \<Rightarrow> bool" where
  "set_has s x = (x \<in> set s)"

definition set_add :: "string list \<Rightarrow> string \<Rightarrow> string list" where
  "set_add s x = (if x \<in> set s then s else s @ [x])"

record discovery_state =
  allDiscoveredPosts :: "string list"
  isOnSearchPage :: bool
  currentSearchUrl :: "string option"

definition resetDiscoveryState :: "discovery_state \<Rightarrow> discovery_state" where
  "resetDiscoveryState st =
     st\<lparr>allDiscoveredPosts := [], isOnSearchPage := False, currentSearchUrl := None\<rparr>"

record search_criteria =
  hashtag :: "string option"
  keywords_field :: "string option"

text \<open>
  The field \<open>keywords\<close> of the source is \<open>keywords_field\<close>, the name being reserved
  in theory headers. \<open>s.replace('#', '')\<close> removes the first \<open>#\<close> only.
\<close>

definition replace_hash :: "string \<Rightarrow> string" where
  "replace_hash s = remove1 (CHR ''#'') s"

definition searchUrl_of :: "search_criteria \<Rightarrow> string option" where
  "searchUrl_of crit =
     (if truthy (hashtag crit)
      then Some (''https://www.instagram.com/explore/tags/'' @ replace_hash (the (hashtag crit)) @ ''/'')
      else if truthy (keywords_field crit)
      then Some (''https://www.instagram.com/explore/tags/'' @ replace_hash (the (keywords_field crit)) @ ''/'')
      else None)"

text \<open>
  One pass of the scroll loop sees the anchors matched by
  \<^verbatim>\<open>a[href*="/p/"], a[href*="/reel/"]\<close> (their \<open>href\<close>s) and the page height
  read twice after the scroll.
\<close>

record page_obs =
  anchors :: "string list"
  currentHeight :: nat
  newHeight :: nat

definition extract_posts :: "string list \<Rightarrow> string list" where
  "extract_posts links =
     take 80
       (filter (\<lambda>h. \<not> str_includes h ''/c/'')
         (filter (\<lambda>h. \<not> str_includes h ''/liked_by/'')
           (filter (\<lambda>h. h \<noteq> [] \<and> (str_includes h ''/p/'' \<or> str_includes h ''/reel/''))
             (List.map_filter clean links))))"

text \<open>The \<open>for\<close> loop of lines 191-197 over the links of one pass.\<close>

fun add_new :: "nat \<Rightarrow> string list \<Rightarrow> string list \<times> string list \<Rightarrow> string list \<times> string list" where
  "add_new maxPosts [] (posts, seen) = (posts, seen)"
| "add_new maxPosts (postUrl # rest) (posts, seen) =
     (if postUrl \<notin> set posts \<and> \<not> set_has seen postUrl \<and> length posts < maxPosts
      then add_new maxPosts rest (posts @ [postUrl], set_add seen postUrl)
      else add_new maxPosts rest (posts, seen))"

definition maxConsecutiveFailedScrolls :: nat where
  "maxConsecutiveFailedScrolls = 10"

text \<open>
  The \<open>while\<close> loop of lines 167-227. The page is read once per pass; the list holds
  what the passes will see, and the loop has not returned (\<open>None\<close>) when the list ends
  before the loop does. The third component counts the scrolls issued.
\<close>

fun discover_loop ::
  "nat \<Rightarrow> page_obs list \<Rightarrow> string list \<Rightarrow> string list \<Rightarrow> nat \<Rightarrow> nat
     \<Rightarrow> (string list \<times> string list \<times> nat) option" where
  "discover_loop maxPosts [] posts seen failed scrolled =
     (if length posts < maxPosts then None else Some (posts, seen, scrolled))"
| "discover_loop maxPosts (ob # obs) posts seen failed scrolled =
     (if length posts < maxPosts then
        (case add_new maxPosts (extract_posts (anchors ob)) (posts, seen) of
           (posts', seen') \<Rightarrow>
             if length posts' \<ge> maxPosts then Some (posts', seen', scrolled)
             else if currentHeight ob = newHeight ob then
               (if failed + 1 \<ge> maxConsecutiveFailedScrolls
                then Some (posts', seen', scrolled + 1)
                else discover_loop maxPosts obs posts' seen' (failed + 1) (scrolled + 1))
             else discover_loop maxPosts obs posts' seen' 0 (scrolled + 1))
      else Some (posts, seen, scrolled))"

record discover_env =
  navigation :: "unit attempt"
  recentTabClicked :: "bool attempt"
  needsLogin :: bool
  passes :: "page_obs list"

type_synonym discover_result = "(error + string list) \<times> discovery_state \<times> page_action list"

text \<open>Lines 108-117: navigate unless already parked on this listing.\<close>

definition enter_listing ::
  "discover_env \<Rightarrow> string \<Rightarrow> discovery_state \<Rightarrow> string option \<times> discovery_state \<times> page_action list" where
  "enter_listing env searchUrl st =
     (if \<not> isOnSearchPage st \<or> currentSearchUrl st \<noteq> Some searchUrl then
        (case navigation env of
           Throws m \<Rightarrow> (Some m, st, [Goto searchUrl])
         | Returns _ \<Rightarrow>
             (None, st\<lparr>isOnSearchPage := True, currentSearchUrl := Some searchUrl\<rparr>,
              [Goto searchUrl]))
      else (None, st, []))"

definition discoverInstagramPosts ::
  "discover_env \<Rightarrow> search_criteria \<Rightarrow> nat \<Rightarrow> discovery_state \<Rightarrow> discover_result option" where
  "discoverInstagramPosts env crit maxPosts st =
     (case searchUrl_of crit of
        None \<Rightarrow> Some (Inl (Error ''Either hashtag or keywords must be provided''), st, [])
      | Some searchUrl \<Rightarrow>
          (case enter_listing env searchUrl st of
             (Some m, st1, tr1) \<Rightarrow> Some (Inl (Error m), st1, tr1)
           | (None, st1, tr1) \<Rightarrow>
               (let tr2 = tr1 @ (if recentTabClicked env = Returns True then [ClickRecentTab] else [])
                in if needsLogin env
                   then Some (Inl (Error ''Instagram login required for post discovery''), st1, tr2)
                   else (case discover_loop maxPosts (passes env) [] (allDiscoveredPosts st1) 0 0 of
                           None \<Rightarrow> None
                         | Some (posts, seen, scrolled) \<Rightarrow>
                             Some (Inr posts, st1\<lparr>allDiscoveredPosts := seen\<rparr>,
                                   tr2 @ replicate scrolled ScrollToBottom)))))"

text \<open>
  A session is a sequence of calls on the same module state, with no reset in between;
  a call that throws contributes no output.
\<close>

fun discover_session ::
  "(discover_env \<times> search_criteria \<times> nat) list \<Rightarrow> discovery_state
     \<Rightarrow> (string list list \<times> discovery_state) option" where
  "discover_session [] st = Some ([], st)"
| "discover_session ((env, crit, maxPosts) # calls) st =
     (case discoverInstagramPosts env crit maxPosts st of
        None \<Rightarrow> None
      | Some (r, st1, tr) \<Rightarrow>
          (case discover_session calls st1 of
             None \<Rightarrow> None
           | Some (outs, st2) \<Rightarrow>
               Some ((case r of Inl e \<Rightarrow> [] | Inr posts \<Rightarrow> posts) # outs, st2)))"

text \<open>
  The posts collected so far are distinct, are all in the seen set, and none of them was
  in the seen set \<open>seen0\<close> the call started from, which the seen set still contains.
\<close>

definition fresh_inv :: "string list \<Rightarrow> string list \<times> string list \<Rightarrow> bool" where
  "fresh_inv seen0 ps = (case ps of (posts, seen) \<Rightarrow>
      distinct posts \<and> set posts \<subseteq> set seen \<and> set posts \<inter> set seen0 = {} \<and> set seen0 \<subseteq> set seen)"

text \<open>A scroll failed when the page height did not change (line 216).\<close>

definition failed_scroll :: "page_obs \<Rightarrow> bool" where
  "failed_scroll ob = (currentHeight ob = newHeight ob)"

text \<open>The links that a list of passes shows, after extraction.\<close>

definition links_of :: "page_obs list \<Rightarrow> string set" where
  "links_of obs = (\<Union>ob \<in> set obs. set (extract_posts (anchors ob)))"

section \<open>Login gate\<close>

text \<open>
  What a \<open>page.evaluate\<close> sees of the page: its URL, its title, and for each
  selector the text of the first element it matches (\<open>document.querySelector\<close>).
  \<open>ensureInstagramLoggedIn\<close> is the first listing of instagram-functions.js, lines
  237-380: the initial check of lines 249-299, the credentials check, the form, and the
  check after the submit of lines 328-353. The best-effort clicks on \<open>Not Now\<close>
  after a successful login (lines 362-371) are not recorded.
\<close>

record page_view =
  href :: string
  title :: string
  dom :: "(string \<times> string) list"

definition querySelector :: "page_view \<Rightarrow> string \<Rightarrow> string option" where
  "querySelector p sel = map_of (dom p) sel"

definition loginIndicators :: "string list" where
  "loginIndicators =
     [''svg[aria-label=\"Home\"]'', ''svg[aria-label=\"Search\"]'', ''svg[aria-label=\"New post\"]'',
      ''svg[aria-label=\"Activity Feed\"]'', ''svg[aria-label=\"Profile\"]'',
      ''[data-testid=\"user-avatar\"]'', ''a[aria-label*=\"Profile\"]'',
      ''a[href*=\"/accounts/edit/\"]'', ''nav[role=\"navigation\"]'', ''[role=\"main\"]'']"

definition loginFormElements :: "string list" where
  "loginFormElements =
     [''input[name=\"username\"]'', ''input[name=\"password\"]'',
      ''input[placeholder*=\"Phone number, username, or email\"]'']"

definition found :: "page_view \<Rightarrow> string list \<Rightarrow> string list" where
  "found p sels = filter (\<lambda>sel. querySelector p sel \<noteq> None) sels"

definition hasLoginIndicators :: "page_view \<Rightarrow> bool" where
  "hasLoginIndicators p = (found p loginIndicators \<noteq> [])"

definition hasLoginForm :: "page_view \<Rightarrow> bool" where
  "hasLoginForm p = (found p loginFormElements \<noteq> [])"

definition onLoginPage :: "page_view \<Rightarrow> bool" where
  "onLoginPage p = str_includes (href p) ''/accounts/login/''"

definition titleIndicatesLogin :: "page_view \<Rightarrow> bool" where
  "titleIndicatesLogin p = (str_includes (title p) ''Login'' \<or> str_includes (title p) ''Sign up'')"

definition initialLoginCheck :: "page_view \<Rightarrow> bool" where
  "initialLoginCheck p =
     (if str_includes (href p) ''/accounts/login/'' then False
      else hasLoginIndicators p \<and> \<not> hasLoginForm p \<and> \<not> onLoginPage p \<and> \<not> titleIndicatesLogin p)"

definition indicators :: "string list" where
  "indicators =
     [''svg[aria-label=\"Home\"]'', ''[data-testid=\"user-avatar\"]'', ''a[aria-label*=\"Profile\"]'',
      ''svg[aria-label=\"Search\"]'', ''svg[aria-label=\"New post\"]'',
      ''a[href*=\"/accounts/edit/\"]'', ''nav[role=\"navigation\"]'', ''[role=\"main\"]'']"

definition errorSelectors :: "string list" where
  "errorSelectors =
     [''#slfErrorAlert'', ''[role=\"alert\"]'', ''[data-testid=\"loginForm\"] div[role=\"alert\"]'']"

definition trim :: "string \<Rightarrow> string" where
  "trim s = rev (dropWhile (\<lambda>c. c = CHR '' '') (rev (dropWhile (\<lambda>c. c = CHR '' '') s)))"

definition foundErrors :: "page_view \<Rightarrow> string list" where
  "foundErrors p = map trim (List.map_filter (querySelector p) errorSelectors)"

definition hasIndicators :: "page_view \<Rightarrow> bool" where
  "hasIndicators p = (found p indicators \<noteq> [])"

definition stillOnLoginPage :: "page_view \<Rightarrow> bool" where
  "stillOnLoginPage p =
     (str_includes (href p) ''/accounts/login/''
      \<or> querySelector p ''input[name=\"username\"]'' \<noteq> None
      \<or> querySelector p ''input[name=\"password\"]'' \<noteq> None)"

definition hasErrors :: "page_view \<Rightarrow> bool" where
  "hasErrors p = (foundErrors p \<noteq> [])"

definition loginCheckResult :: "page_view \<Rightarrow> bool" where
  "loginCheckResult p = ((hasIndicators p \<or> \<not> stillOnLoginPage p) \<and> \<not> hasErrors p)"

record login_env =
  currentUrl :: string
  view0 :: page_view
  username :: "string option"
  password :: "string option"
  loginForm :: "unit attempt"
  view1 :: page_view

definition errorText :: "page_view \<Rightarrow> string" where
  "errorText p =
     (case foundErrors p of
        e # _ \<Rightarrow> if e \<noteq> [] then e else ''Login detection failed - no success indicators found''
      | [] \<Rightarrow> ''Login detection failed - no success indicators found'')"

definition ensureInstagramLoggedIn :: "login_env \<Rightarrow> (error + bool) \<times> page_action list" where
  "ensureInstagramLoggedIn env =
     (let tr0 = (if \<not> str_includes (currentUrl env) ''instagram.com''
                 then [Goto ''https://www.instagram.com/''] else [])
      in if initialLoginCheck (view0 env) then (Inr True, tr0)
         else if \<not> truthy (username env) \<or> \<not> truthy (password env)
         then (Inl (Error ''Instagram session missing and no credentials provided. Provide username/password or login headfully and save a session.''), tr0)
         else
           (let tr1 = tr0 @ [Goto ''https://www.instagram.com/accounts/login/'']
            in case loginForm env of
                 Throws m \<Rightarrow> (Inl (Error m), tr1)
               | Returns _ \<Rightarrow>
                   (let tr2 = tr1 @ [Click ''input[name=\"username\"]'', TypeText (the (username env)),
                                     Click ''input[name=\"password\"]'', TypeText (the (password env)),
                                     Click ''button[type=\"submit\"]'']
                    in if \<not> loginCheckResult (view1 env)
                       then (Inl (Error (''Instagram login failed: '' @ errorText (view1 env))), tr2)
                       else (Inr True, tr2))))"

definition view_bare :: page_view where
  "view_bare = \<lparr>href = ''https://www.instagram.com/'', title = ''Instagram'', dom = []\<rparr>"

definition view_login :: page_view where
  "view_login = \<lparr>href = ''https://www.instagram.com/accounts/login/'', title = ''Login'',
                 dom = [(''input[name=\"username\"]'', []), (''input[name=\"password\"]'', [])]\<rparr>"

definition login_w :: login_env where
  "login_w = \<lparr>currentUrl = ''https://www.instagram.com/accounts/login/'', view0 = view_login,
               username = Some ''u'', password = Some ''p'', loginForm = Returns (),
               view1 = view_bare\<rparr>"

definition view_alert :: page_view where
  "view_alert = \<lparr>href = ''https://www.instagram.com/accounts/login/'', title = ''Login'',
                 dom = [(''input[name=\"username\"]'', []), (''#slfErrorAlert'', '' Wrong password '')]\<rparr>"

section \<open>Favorite action\<close>

text \<open>
  \<open>instagramLike\<close> is the first listing of instagram-functions.js, lines 500-672, over
  the module's \<open>likedPosts\<close> set. It returns a boolean, or rethrows what the
  navigation throws; the errors of the three methods are caught inside.
\<close>

record like_env =
  like_goto :: "unit attempt"
  mediaId :: "string option"
  alreadyLiked :: bool
  method1 :: "bool attempt"
  method2 :: "bool attempt"
  likeButton :: bool
  clickLike :: "unit attempt"
  isLiked :: bool

type_synonym like_result = "(error + bool) \<times> string list \<times> page_action list"

text \<open>Method 3 (lines 634-663): click the like control and look for the unlike control.\<close>

definition like_method3 :: "like_env \<Rightarrow> bool \<times> page_action list" where
  "like_method3 env =
     (if likeButton env then
        (case clickLike env of
           Throws m \<Rightarrow> (False, [Click ''button[aria-label=\"Like\"]''])
         | Returns _ \<Rightarrow> (isLiked env, [Click ''button[aria-label=\"Like\"]'']))
      else (False, []))"

definition instagramLike :: "like_env \<Rightarrow> string \<Rightarrow> string list \<Rightarrow> like_result" where
  "instagramLike env postUrl likedPosts =
     (if set_has likedPosts postUrl then (Inr True, likedPosts, [])
      else
        (case like_goto env of
           Throws m \<Rightarrow> (Inl (Error m), likedPosts, [Goto postUrl])
         | Returns _ \<Rightarrow>
             (case mediaId env of
                None \<Rightarrow> (Inr False, likedPosts, [Goto postUrl])
              | Some mid \<Rightarrow>
                  if alreadyLiked env then (Inr True, set_add likedPosts postUrl, [Goto postUrl])
                  else
                    (let tr1 = [Goto postUrl, Post (''/web/likes/'' @ mid @ ''/like/'')]
                     in if method1 env = Returns True
                        then (Inr True, set_add likedPosts postUrl, tr1)
                        else
                          (let tr2 = tr1 @ [Post (''/web/likes/'' @ mid @ ''/'')]
                           in if method2 env = Returns True
                              then (Inr True, set_add likedPosts postUrl, tr2)
                              else
                                (case like_method3 env of
                                   (True, tr3) \<Rightarrow> (Inr True, set_add likedPosts postUrl, tr2 @ tr3)
                                 | (False, tr3) \<Rightarrow> (Inr False, likedPosts, tr2 @ tr3)))))))"


definition like_w :: like_env where
  "like_w = \<lparr>like_goto = Returns (), mediaId = Some ''42'', alreadyLiked = False,
              method1 = Returns False, method2 = Returns True, likeButton = False,
              clickLike = Returns (), isLiked = False\<rparr>"



section \<open>Reply action\<close>

text \<open>
  \<open>instagramComment\<close> is the first listing of instagram-functions.js, lines 674-975.
  Its whole body is inside a handler that turns an exception into a failure outcome
  (lines 966-974), so it returns an outcome in every case. \<open>hasMyCommentAndCache\<close>
  is utils/igHasMyComment.js, which is not among the sources: its answer is a parameter,
  and what it does with the page is outside this model. The searches for the text-entry
  control and for the submit control are each one boolean: whether any candidate of the
  source's list matched.
\<close>

record outcome =
  success :: bool
  skipped :: bool
  reason :: "string option"

record comment_env =
  alreadyCommented :: "bool attempt"
  comment_goto :: "unit attempt"
  inputFound :: bool
  inputFoundAfterScroll :: bool
  typedText :: string
  postButton :: bool
  clickPost :: "unit attempt"
  enterPosted :: bool
  commentPosted :: bool
  inputCleared :: bool

definition failure :: "string \<Rightarrow> outcome" where
  "failure msg = \<lparr>success = False, skipped = False, reason = Some msg\<rparr>"

definition posted :: outcome where
  "posted = \<lparr>success = True, skipped = False, reason = None\<rparr>"

definition skip_outcome :: outcome where
  "skip_outcome = \<lparr>success = False, skipped = True, reason = Some ''Already commented on this post''\<rparr>"

text \<open>Lines 775-798: focus, clear, type, read back, and retype once on a mismatch.\<close>

definition type_comment :: "comment_env \<Rightarrow> string \<Rightarrow> page_action list" where
  "type_comment env comment =
     [Click ''comment input'', ClearInput, TypeText comment]
     @ (if typedText env \<noteq> comment then [ClearInput, TypeText comment] else [])"

text \<open>
  Lines 800-964: the submit control, the Enter fallback, the verification. Both
  branches of the verification at lines 950-964 return success; the source logs
  \<open>Comment verification failed, but assuming success\<close> in the second.
\<close>

definition submit_comment :: "comment_env \<Rightarrow> outcome \<times> page_action list" where
  "submit_comment env =
     (if \<not> postButton env then
        (if enterPosted env then (posted, [PressEnter])
         else (failure ''Post button not found'', [PressEnter]))
      else
        (case clickPost env of
           Throws m \<Rightarrow> (failure m, [Click ''post button''])
         | Returns _ \<Rightarrow>
             if commentPosted env then (posted, [Click ''post button''])
             else (posted, [Click ''post button''])))"

text \<open>Lines 695-773: navigation unless the caller did it, then the text-entry control.\<close>

definition comment_on_page ::
  "comment_env \<Rightarrow> string \<Rightarrow> page_action list \<Rightarrow> outcome \<times> page_action list" where
  "comment_on_page env comment tr0 =
     (if \<not> inputFound env \<and> \<not> inputFoundAfterScroll env
      then (failure ''Comment input field not found'', tr0 @ [ScrollBy 500])
      else
        (let tr1 = tr0 @ (if inputFound env then [] else [ScrollBy 500]) @ type_comment env comment
         in case submit_comment env of (r, tr2) \<Rightarrow> (r, tr1 @ tr2)))"

definition instagramComment ::
  "comment_env \<Rightarrow> string \<Rightarrow> string \<Rightarrow> bool \<Rightarrow> outcome \<times> page_action list" where
  "instagramComment env postUrl comment skipNavigation =
     (case alreadyCommented env of
        Throws m \<Rightarrow> (failure m, [])
      | Returns True \<Rightarrow> (skip_outcome, [])
      | Returns False \<Rightarrow>
          if skipNavigation then comment_on_page env comment []
          else
            (case comment_goto env of
               Throws m \<Rightarrow> (failure m, [Goto postUrl])
             | Returns _ \<Rightarrow> comment_on_page env comment [Goto postUrl]))"

text \<open>
  The second listing of the file (lines 1705-1946): the verification of lines 1892-1919
  accepts a cleared input or the reply text among the rendered spans, and every failure
  is thrown again by the handler of lines 1941-1945.
\<close>

definition comment_on_page_v2 ::
  "comment_env \<Rightarrow> string \<Rightarrow> page_action list \<Rightarrow> (error + outcome) \<times> page_action list" where
  "comment_on_page_v2 env comment tr0 =
     (if \<not> inputFound env \<and> \<not> inputFoundAfterScroll env
      then (Inl (Error ''Comment input field not found''), tr0 @ [ScrollBy 500])
      else
        (let tr1 = tr0 @ (if inputFound env then [] else [ScrollBy 500])
                       @ [Click ''comment input'', TypeText comment]
                       @ (if postButton env then [Click ''post button''] else [PressEnter])
         in if inputCleared env \<or> commentPosted env
            then (Inr posted, tr1)
            else (Inl (Error ''Comment verification failed - comment may not have been posted''), tr1)))"

definition instagramComment_v2 ::
  "comment_env \<Rightarrow> string \<Rightarrow> string \<Rightarrow> bool \<Rightarrow> (error + outcome) \<times> page_action list" where
  "instagramComment_v2 env postUrl comment skipNavigation =
     (case alreadyCommented env of
        Throws m \<Rightarrow> (Inl (Error m), [])
      | Returns True \<Rightarrow> (Inr skip_outcome, [])
      | Returns False \<Rightarrow>
          if skipNavigation then comment_on_page_v2 env comment []
          else
            (case comment_goto env of
               Throws m \<Rightarrow> (Inl (Error m), [Goto postUrl])
             | Returns _ \<Rightarrow> comment_on_page_v2 env comment [Goto postUrl]))"

text \<open>The call gets as far as a text-entry control on the post's page.\<close>

definition reaches_input :: "comment_env \<Rightarrow> bool \<Rightarrow> bool" where
  "reaches_input env skipNavigation =
     (alreadyCommented env = Returns False
      \<and> (skipNavigation \<or> comment_goto env = Returns ())
      \<and> (inputFound env \<or> inputFoundAfterScroll env))"

definition comment_w :: comment_env where
  "comment_w = \<lparr>alreadyCommented = Returns False, comment_goto = Returns (), inputFound = True,
                 inputFoundAfterScroll = False, typedText = ''Nice'', postButton = True,
                 clickPost = Returns (), enterPosted = False, commentPosted = False,
                 inputCleared = False\<rparr>"

definition comment_enter :: comment_env where
  "comment_enter = comment_w\<lparr>postButton := False, enterPosted := True\<rparr>"

section \<open>Batch loop\<close>

text \<open>
  The \<open>auto-comment\<close> branch of \<open>runAction\<close> (bot.js, lines 573-775). The target
  \<open>maxPosts\<close> is a count. A post's text, the answers of the prior-action cache, the
  progress reporter and the actions' pages are what the run meets; the reply text is a
  parameter (its generation is another collaborator's). Two fields of the state are not
  in the source: \<open>requested\<close> lists the batch sizes passed to the Discoverer, and
  \<open>replied\<close> lists the posts on which the reply action was called.
\<close>

definition is_space :: "char \<Rightarrow> bool" where
  "is_space c = (c = CHR '' '' \<or> c = CHR 0x09 \<or> c = CHR 0x0A \<or> c = CHR 0x0D)"

text \<open>
  \<open>content.trim().split(/\s+/).filter(word => word.length > 0).length\<close>: the number
  of maximal runs of characters that are not white space.
\<close>

fun count_words_from :: "bool \<Rightarrow> string \<Rightarrow> nat" where
  "count_words_from inside [] = 0"
| "count_words_from inside (c # cs) =
     (if is_space c then count_words_from False cs
      else (if inside then 0 else 1) + count_words_from True cs)"

definition wordCount :: "string \<Rightarrow> nat" where
  "wordCount content = count_words_from False content"

definition lower_char :: "char \<Rightarrow> char" where
  "lower_char c =
     (case map_of (zip ''ABCDEFGHIJKLMNOPQRSTUVWXYZ'' ''abcdefghijklmnopqrstuvwxyz'') c of
        Some d \<Rightarrow> d | None \<Rightarrow> c)"

definition toLowerCase :: "string \<Rightarrow> string" where
  "toLowerCase s = map lower_char s"

definition mentions_video :: "string \<Rightarrow> bool" where
  "mentions_video content =
     (str_includes (toLowerCase content) ''video''
      \<or> str_includes (toLowerCase content) ''watch''
      \<or> str_includes (toLowerCase content) ''play'')"

record item_env =
  report :: "unit attempt"
  content :: "string attempt"
  hasVideo :: bool
  cached :: "bool attempt"
  like :: like_env
  reply :: comment_env

record run_cfg =
  maxPosts :: nat
  criteria :: search_criteria
  finalComment :: string
  likePost :: bool

record run_state =
  successfulComments :: nat
  attempts :: nat
  consecutiveEmptyBatches :: nat
  disc :: discovery_state
  likedPosts :: "string list"
  requested :: "nat list"
  replied :: "string list"

definition maxConsecutiveEmptyBatches :: nat where
  "maxConsecutiveEmptyBatches = 5"

text \<open>Line 599.\<close>

definition batchSize :: "run_cfg \<Rightarrow> nat" where
  "batchSize cfg = min 10 (maxPosts cfg * 2)"

text \<open>
  Lines 688-706: the like before the reply; its result decides whether the reply may
  skip the navigation, and an exception of the like is caught.
\<close>

definition like_step :: "run_cfg \<Rightarrow> item_env \<Rightarrow> string \<Rightarrow> run_state \<Rightarrow> bool \<times> run_state" where
  "like_step cfg ie postUrl st =
     (if likePost cfg then
        (case instagramLike (like ie) postUrl (likedPosts st) of
           (Inr ok, liked', tr) \<Rightarrow> (ok, st\<lparr>likedPosts := liked'\<rparr>)
         | (Inl e, liked', tr) \<Rightarrow> (False, st\<lparr>likedPosts := liked'\<rparr>))
      else (False, st))"

text \<open>
  Lines 633-752, the body of the inner \<open>try\<close> for one post: the content gates, the
  loop's own look at the prior-action cache, the like, the reply, the counter. Every
  exception in it is caught and the loop goes on to the next post.
\<close>

definition process_post :: "run_cfg \<Rightarrow> item_env \<Rightarrow> string \<Rightarrow> run_state \<Rightarrow> run_state" where
  "process_post cfg ie postUrl st =
     (case content ie of
        Throws m \<Rightarrow> st
      | Returns text \<Rightarrow>
          if wordCount text < 3 then st
          else if mentions_video text \<and> hasVideo ie then st
          else
            (case cached ie of
               Throws m \<Rightarrow> st
             | Returns True \<Rightarrow> st
             | Returns False \<Rightarrow>
                 (case like_step cfg ie postUrl st of
                    (likedSuccessfully, st1) \<Rightarrow>
                      (let commentResult =
                             fst (instagramComment (reply ie) postUrl (finalComment cfg) likedSuccessfully);
                           st2 = st1\<lparr>replied := replied st1 @ [postUrl]\<rparr>
                       in if skipped commentResult then st2
                          else if \<not> success commentResult then st2
                          else st2\<lparr>successfulComments := successfulComments st2 + 1\<rparr>))))"

text \<open>
  The \<open>for\<close> loop of lines 619-753. The progress report of line 624 is outside the
  inner \<open>try\<close>: when it throws, the exception reaches the handler of line 757.
\<close>

fun process_posts ::
  "run_cfg \<Rightarrow> (string \<Rightarrow> item_env) \<Rightarrow> string list \<Rightarrow> run_state \<Rightarrow> string option \<times> run_state" where
  "process_posts cfg ienv [] st = (None, st)"
| "process_posts cfg ienv (postUrl # rest) st =
     (if successfulComments st \<ge> maxPosts cfg then (None, st)
      else
        (let st1 = st\<lparr>attempts := attempts st + 1\<rparr>
         in case report (ienv postUrl) of
              Throws m \<Rightarrow> (Some m, st1)
            | Returns _ \<Rightarrow>
                process_posts cfg ienv rest (process_post cfg (ienv postUrl) postUrl st1)))"

datatype exit = LoopCondition | EmptyBatches | TargetReached | BatchError string

record batch_env =
  disc_env :: discover_env
  items :: "string \<Rightarrow> item_env"

text \<open>
  The \<open>while\<close> loop of lines 598-761 over what each pass meets. \<open>None\<close>: the list
  ended before the loop did, or a discover call did not return.
\<close>

fun batch_loop :: "run_cfg \<Rightarrow> batch_env list \<Rightarrow> run_state \<Rightarrow> (exit \<times> run_state) option" where
  "batch_loop cfg [] st =
     (if successfulComments st < maxPosts cfg then None else Some (LoopCondition, st))"
| "batch_loop cfg (b # bs) st =
     (if successfulComments st < maxPosts cfg then
        (let st1 = st\<lparr>requested := requested st @ [batchSize cfg]\<rparr>
         in case discoverInstagramPosts (disc_env b) (criteria cfg) (batchSize cfg) (disc st1) of
              None \<Rightarrow> None
            | Some (Inl (Error m), d, tr) \<Rightarrow> Some (BatchError m, st1\<lparr>disc := d\<rparr>)
            | Some (Inr posts, d, tr) \<Rightarrow>
                if posts = [] then
                  (let st2 = st1\<lparr>disc := d, consecutiveEmptyBatches := consecutiveEmptyBatches st1 + 1\<rparr>
                   in if consecutiveEmptyBatches st2 \<ge> maxConsecutiveEmptyBatches
                      then Some (EmptyBatches, st2)
                      else batch_loop cfg bs st2)
                else
                  (case process_posts cfg (items b) posts
                          (st1\<lparr>disc := d, consecutiveEmptyBatches := 0\<rparr>) of
                     (Some m, st3) \<Rightarrow> Some (BatchError m, st3)
                   | (None, st3) \<Rightarrow>
                       if successfulComments st3 \<ge> maxPosts cfg then Some (TargetReached, st3)
                       else batch_loop cfg bs st3))
      else Some (LoopCondition, st))"

text \<open>Lines 581-596: the reset and the counters at the start of the action.\<close>

definition run_start :: "discovery_state \<Rightarrow> string list \<Rightarrow> run_state" where
  "run_start d liked =
     \<lparr>successfulComments = 0, attempts = 0, consecutiveEmptyBatches = 0,
      disc = resetDiscoveryState d, likedPosts = liked, requested = [], replied = []\<rparr>"

section \<open>Example inputs\<close>

text \<open>
  A listing whose first pass shows two posts and grows, and whose later passes show one
  of them again without growing; a criterion; a state that has seen one of the posts.
\<close>

definition pass_a :: page_obs where
  "pass_a = \<lparr>anchors = [''/p/a/?x=1'', ''/p/b/''], currentHeight = 10, newHeight = 20\<rparr>"

definition pass_b :: page_obs where
  "pass_b = \<lparr>anchors = [''/p/a/''], currentHeight = 20, newHeight = 20\<rparr>"

definition env_w :: discover_env where
  "env_w = \<lparr>navigation = Returns (), recentTabClicked = Returns True, needsLogin = False,
            passes = pass_a # replicate 10 pass_b\<rparr>"

definition crit_w :: search_criteria where
  "crit_w = \<lparr>hashtag = Some ''#cats'', keywords_field = None\<rparr>"

definition crit_none :: search_criteria where
  "crit_none = \<lparr>hashtag = None, keywords_field = Some []\<rparr>"

definition st_w :: discovery_state where
  "st_w = \<lparr>allDiscoveredPosts = [''https://www.instagram.com/p/b/''],
           isOnSearchPage = False, currentSearchUrl = None\<rparr>"

definition st_w' :: discovery_state where
  "st_w' = \<lparr>allDiscoveredPosts =
              [''https://www.instagram.com/p/b/'', ''https://www.instagram.com/p/a/''],
            isOnSearchPage = True,
            currentSearchUrl = Some ''https://www.instagram.com/explore/tags/cats/''\<rparr>"

text \<open>The outputs of two calls in a row on that listing: one new post, then none.\<close>

definition outs_w :: "string list list" where
  "outs_w = [''https://www.instagram.com/p/a/''] # [] # []"

definition tr_w :: "page_action list" where
  "tr_w = [Goto ''https://www.instagram.com/explore/tags/cats/'', ClickRecentTab]
          @ replicate 11 ScrollToBottom"





text \<open>Posts, passes and states of an example run with target 3.\<close>

definition env_empty :: discover_env where
  "env_empty = \<lparr>navigation = Returns (), recentTabClicked = Returns False, needsLogin = False,
               passes = replicate 10 \<lparr>anchors = [], currentHeight = 5, newHeight = 5\<rparr>\<rparr>"

definition item_ok :: item_env where
  "item_ok = \<lparr>report = Returns (), content = Returns ''a sunny day outside'', hasVideo = False,
              cached = Returns False, like = like_w, reply = comment_w\<rparr>"

definition item_cached :: item_env where
  "item_cached = item_ok\<lparr>reply := comment_w\<lparr>alreadyCommented := Returns True\<rparr>\<rparr>"

definition cfg_w :: run_cfg where
  "cfg_w = \<lparr>maxPosts = 3, criteria = crit_w, finalComment = ''Nice'', likePost = False\<rparr>"

definition batch_empty :: batch_env where
  "batch_empty = \<lparr>disc_env = env_empty, items = (\<lambda>u. item_ok)\<rparr>"

definition batch_two :: batch_env where
  "batch_two = \<lparr>disc_env = env_w, items = (\<lambda>u. item_ok)\<rparr>"

definition batch_skips :: batch_env where
  "batch_skips = \<lparr>disc_env = env_w, items = (\<lambda>u. item_cached)\<rparr>"

definition disc_ab :: discovery_state where
  "disc_ab = \<lparr>allDiscoveredPosts = [''https://www.instagram.com/p/a/'', ''https://www.instagram.com/p/b/''],
              isOnSearchPage = True,
              currentSearchUrl = Some ''https://www.instagram.com/explore/tags/cats/''\<rparr>"

definition st_skipped :: run_state where
  "st_skipped = \<lparr>successfulComments = 0, attempts = 2, consecutiveEmptyBatches = 0, disc = disc_ab,
                 likedPosts = [], requested = [6],
                 replied = [''https://www.instagram.com/p/a/'', ''https://www.instagram.com/p/b/'']\<rparr>"

definition st_after_two :: run_state where
  "st_after_two = st_skipped\<lparr>successfulComments := 2\<rparr>"

definition st_end :: run_state where
  "st_end = st_after_two\<lparr>consecutiveEmptyBatches := 5, requested := [6, 6, 6, 6, 6, 6]\<rparr>"

definition st0_w :: run_state where
  "st0_w = run_start st_w []"

definition item_known :: item_env where
  "item_known = item_ok\<lparr>cached := Returns True\<rparr>"

section \<open>Theorems\<close>

section \<open>Properties of discovery\<close>

lemma add_new_inv:
  "fresh_inv seen0 (posts, seen) \<Longrightarrow> fresh_inv seen0 (add_new n links (posts, seen))"
proof (induction links arbitrary: posts seen)
  case Nil
  then show ?case by simp
next
  case (Cons u links)
  show ?case
  proof (cases "u \<notin> set posts \<and> \<not> set_has seen u \<and> length posts < n")
    case True
    have "fresh_inv seen0 (posts @ [u], set_add seen u)"
      using Cons.prems True by (auto simp: fresh_inv_def set_has_def set_add_def)
    then show ?thesis using True Cons.IH by simp
  next
    case False
    then show ?thesis using Cons by auto
  qed
qed

lemma add_new_length:
  "length (fst (add_new n links (posts, seen))) \<le> max n (length posts)"
proof (induction links arbitrary: posts seen)
  case Nil
  then show ?case by simp
next
  case (Cons u links)
  show ?case
  proof (cases "u \<notin> set posts \<and> \<not> set_has seen u \<and> length posts < n")
    case True
    have "length (fst (add_new n links (posts @ [u], set_add seen u))) \<le> max n (length (posts @ [u]))"
      by (rule Cons.IH)
    then show ?thesis using True by simp
  next
    case False
    have "length (fst (add_new n links (posts, seen))) \<le> max n (length posts)"
      by (rule Cons.IH)
    then show ?thesis using False by auto
  qed
qed

lemma add_new_seen_length:
  "length seen \<le> length (snd (add_new n links (posts, seen)))"
proof (induction links arbitrary: posts seen)
  case Nil
  then show ?case by simp
next
  case (Cons u links)
  show ?case
  proof (cases "u \<notin> set posts \<and> \<not> set_has seen u \<and> length posts < n")
    case True
    have "length (set_add seen u) \<le> length (snd (add_new n links (posts @ [u], set_add seen u)))"
      by (rule Cons.IH)
    moreover have "length seen \<le> length (set_add seen u)" by (simp add: set_add_def)
    ultimately show ?thesis using True by simp
  next
    case False
    have "length seen \<le> length (snd (add_new n links (posts, seen)))"
      by (rule Cons.IH)
    then show ?thesis using False by auto
  qed
qed

lemma discover_loop_inv:
  "discover_loop n obs posts seen f sc = Some (posts', seen', sc') \<Longrightarrow>
   fresh_inv seen0 (posts, seen) \<Longrightarrow> fresh_inv seen0 (posts', seen')"
proof (induction obs arbitrary: posts seen f sc)
  case Nil
  then show ?case by (simp split: if_splits)
next
  case (Cons ob obs)
  obtain p1 s1 where a: "add_new n (extract_posts (anchors ob)) (posts, seen) = (p1, s1)"
    by (cases "add_new n (extract_posts (anchors ob)) (posts, seen)")
  have inv1: "fresh_inv seen0 (p1, s1)"
    using add_new_inv [OF Cons.prems(2), of n "extract_posts (anchors ob)"] a by simp
  show ?case
  proof (cases "length posts < n")
    case False
    then show ?thesis using Cons.prems by simp
  next
    case True
    then show ?thesis
      using Cons.prems(1) a inv1 Cons.IH [of p1 s1]
      by (auto split: if_splits)
  qed
qed

lemma discover_loop_length:
  "discover_loop n obs posts seen f sc = Some (posts', seen', sc') \<Longrightarrow>
   length posts' \<le> max n (length posts) \<and> length seen \<le> length seen'"
proof (induction obs arbitrary: posts seen f sc)
  case Nil
  then show ?case by (simp split: if_splits)
next
  case (Cons ob obs)
  obtain p1 s1 where a: "add_new n (extract_posts (anchors ob)) (posts, seen) = (p1, s1)"
    by (cases "add_new n (extract_posts (anchors ob)) (posts, seen)")
  have l1: "length p1 \<le> max n (length posts)" "length seen \<le> length s1"
    using add_new_length [of n "extract_posts (anchors ob)" posts seen]
          add_new_seen_length [of seen n "extract_posts (anchors ob)" posts] a by simp_all
  show ?case
  proof (cases "length posts < n")
    case False
    then show ?thesis using Cons.prems by simp
  next
    case True
    then show ?thesis
      using Cons.prems(1) a l1 Cons.IH [of p1 s1]
      by (fastforce split: if_splits)
  qed
qed

lemma discover_loop_run:
  "\<forall>ob \<in> set fails. failed_scroll ob \<Longrightarrow> failed + length fails \<ge> 10 \<Longrightarrow> failed < 10 \<Longrightarrow>
   discover_loop n (fails @ post) posts seen failed sc \<noteq> None"
proof (induction fails arbitrary: posts seen failed sc)
  case Nil
  then show ?case by simp
next
  case (Cons ob fails)
  have f: "currentHeight ob = newHeight ob" using Cons.prems(1) by (simp add: failed_scroll_def)
  have ih: "\<And>p s. failed + 1 < 10 \<Longrightarrow> discover_loop n (fails @ post) p s (failed + 1) (sc + 1) \<noteq> None"
    using Cons.IH Cons.prems by simp
  show ?case using f ih
    by (auto simp: maxConsecutiveFailedScrolls_def split: prod.splits)
qed

lemma discover_loop_terminates:
  "\<forall>ob \<in> set fails. failed_scroll ob \<Longrightarrow> length fails = 10 \<Longrightarrow> failed < 10 \<Longrightarrow>
   discover_loop n (pre @ fails @ post) posts seen failed sc \<noteq> None"
proof (induction pre arbitrary: posts seen failed sc)
  case Nil
  then show ?case using discover_loop_run [of fails failed n post posts seen sc] by simp
next
  case (Cons ob pre)
  have ih: "\<And>p s f c. f < 10 \<Longrightarrow> discover_loop n (pre @ fails @ post) p s f c \<noteq> None"
    using Cons.IH Cons.prems by simp
  show ?case using ih [of 0] ih [of "failed + 1"]
    by (auto simp: maxConsecutiveFailedScrolls_def split: prod.splits)
qed

lemma enter_listing_seen:
  "enter_listing env u st = (r, st1, tr) \<Longrightarrow> allDiscoveredPosts st1 = allDiscoveredPosts st"
  by (auto simp: enter_listing_def split: if_splits attempt.splits)

lemma discover_error_keeps_seen:
  "discoverInstagramPosts env crit n st = Some (Inl e, st', tr) \<Longrightarrow>
   allDiscoveredPosts st' = allDiscoveredPosts st"
  by (auto simp: discoverInstagramPosts_def Let_def dest: enter_listing_seen
           split: option.splits prod.splits if_splits)

lemma discover_returns:
  assumes "discoverInstagramPosts env crit n st = Some (Inr posts, st', tr)"
  shows "fresh_inv (allDiscoveredPosts st) (posts, allDiscoveredPosts st')"
    and "length posts \<le> n"
    and "length (allDiscoveredPosts st) \<le> length (allDiscoveredPosts st')"
proof -
  from assms obtain u st1 tr1 sc where
    e: "enter_listing env u st = (None, st1, tr1)" and
    l: "discover_loop n (passes env) [] (allDiscoveredPosts st1) 0 0 = Some (posts, allDiscoveredPosts st', sc)"
    by (auto simp: discoverInstagramPosts_def Let_def split: option.splits prod.splits if_splits)
  have s: "allDiscoveredPosts st1 = allDiscoveredPosts st" using e by (rule enter_listing_seen)
  have "fresh_inv (allDiscoveredPosts st) ([], allDiscoveredPosts st)" by (simp add: fresh_inv_def)
  then show "fresh_inv (allDiscoveredPosts st) (posts, allDiscoveredPosts st')"
    using discover_loop_inv [OF l, of "allDiscoveredPosts st"] s by simp
  show "length posts \<le> n" using discover_loop_length [OF l] by simp
  show "length (allDiscoveredPosts st) \<le> length (allDiscoveredPosts st')"
    using discover_loop_length [OF l] s by simp
qed

text \<open>
  C2. Over any sequence of discover calls on one module state without a reset, the
  seen set only grows (as a set and in size), and the outputs of the calls, taken
  together, hold no item twice: none within one call's output, none in two outputs, and
  none that was already in the seen set when the sequence started.
\<close>

theorem discover_session_fresh:
  "discover_session calls st = Some (outs, st') \<Longrightarrow>
   distinct (concat outs) \<and> set (concat outs) \<inter> set (allDiscoveredPosts st) = {}
   \<and> set (allDiscoveredPosts st) \<subseteq> set (allDiscoveredPosts st')
   \<and> length (allDiscoveredPosts st) \<le> length (allDiscoveredPosts st')"
proof (induction calls arbitrary: st outs)
  case Nil
  then show ?case by simp
next
  case (Cons call calls)
  obtain env crit n where c: "call = (env, crit, n)" by (cases call)
  from Cons.prems c obtain r st1 tr outs1 where
    d: "discoverInstagramPosts env crit n st = Some (r, st1, tr)" and
    s: "discover_session calls st1 = Some (outs1, st')" and
    o: "outs = (case r of Inl e \<Rightarrow> [] | Inr posts \<Rightarrow> posts) # outs1"
    by (auto split: option.splits prod.splits)
  note ih = Cons.IH [OF s]
  show ?case
  proof (cases r)
    case (Inl e)
    then show ?thesis using ih o discover_error_keeps_seen [of env crit n st e st1 tr] d by simp
  next
    case (Inr posts)
    have f: "fresh_inv (allDiscoveredPosts st) (posts, allDiscoveredPosts st1)"
      and g: "length (allDiscoveredPosts st) \<le> length (allDiscoveredPosts st1)"
      using discover_returns [of env crit n st posts st1 tr] d Inr by simp_all
    show ?thesis using ih o Inr f g
      by (auto simp: fresh_inv_def)
  qed
qed

text \<open>
  C10. With neither a hashtag nor keywords the call throws
  \<open>Either hashtag or keywords must be provided\<close>; nothing has been done to the page
  and the module state is the one the call started from.
\<close>

theorem discover_no_criteria:
  "\<not> truthy (hashtag crit) \<Longrightarrow> \<not> truthy (keywords_field crit) \<Longrightarrow>
   discoverInstagramPosts env crit n st =
     Some (Inl (Error ''Either hashtag or keywords must be provided''), st, [])"
  by (simp add: discoverInstagramPosts_def searchUrl_of_def)

lemma discover_exhausted:
  assumes "searchUrl_of crit \<noteq> None" "navigation env = Returns ()" "\<not> needsLogin env"
    and "passes env = pre @ fails @ post" "length fails = 10" "\<forall>ob \<in> set fails. failed_scroll ob"
  shows "\<exists>posts st' tr. discoverInstagramPosts env crit n st = Some (Inr posts, st', tr)"
proof -
  obtain u where u: "searchUrl_of crit = Some u" using assms(1) by auto
  have "fst (enter_listing env u st) = None"
    using assms(2) by (simp add: enter_listing_def)
  then obtain st1 tr1 where e: "enter_listing env u st = (None, st1, tr1)"
    by (cases "enter_listing env u st") auto
  have "discover_loop n (passes env) [] (allDiscoveredPosts st1) 0 0 \<noteq> None"
    using discover_loop_terminates [OF assms(6) assms(5), of 0 n pre post "[]" "allDiscoveredPosts st1" 0] assms(4)
    by simp
  then show ?thesis using u e assms(3)
    by (auto simp: discoverInstagramPosts_def Let_def)
qed

lemma add_new_posts_length:
  "length posts \<le> length (fst (add_new n links (posts, seen)))"
proof (induction links arbitrary: posts seen)
  case Nil
  then show ?case by simp
next
  case (Cons u links)
  show ?case
  proof (cases "u \<notin> set posts \<and> \<not> set_has seen u \<and> length posts < n")
    case True
    have "length (posts @ [u]) \<le> length (fst (add_new n links (posts @ [u], set_add seen u)))"
      by (rule Cons.IH)
    then show ?thesis using True by simp
  next
    case False
    have "length posts \<le> length (fst (add_new n links (posts, seen)))"
      by (rule Cons.IH)
    then show ?thesis using False by auto
  qed
qed

lemma add_new_all:
  "add_new n links (posts, seen) = (p1, s1) \<Longrightarrow> length p1 < n \<Longrightarrow> set posts \<subseteq> set seen \<Longrightarrow>
   set p1 = set posts \<union> (set links - set seen) \<and> set s1 = set seen \<union> set links"
proof (induction links arbitrary: posts seen)
  case Nil
  then show ?case by auto
next
  case (Cons u links)
  have len: "length posts < n"
    using add_new_posts_length [of posts n "u # links" seen] Cons.prems(1,2) by simp
  show ?case
  proof (cases "u \<notin> set posts \<and> \<not> set_has seen u")
    case True
    have a: "add_new n links (posts @ [u], set_add seen u) = (p1, s1)"
      using Cons.prems(1) True len by simp
    have "set (posts @ [u]) \<subseteq> set (set_add seen u)"
      using Cons.prems(3) by (auto simp: set_add_def)
    from Cons.IH [OF a Cons.prems(2) this] show ?thesis
      using True by (auto simp: set_add_def set_has_def)
  next
    case False
    have a: "add_new n links (posts, seen) = (p1, s1)"
      using Cons.prems(1) False by auto
    from Cons.IH [OF a Cons.prems(2) Cons.prems(3)] show ?thesis
      using False Cons.prems(3) by (auto simp: set_has_def)
  qed
qed

lemma discover_loop_exhausted:
  "discover_loop n obs posts seen f sc = Some (posts', seen', sc') \<Longrightarrow> length posts' < n \<Longrightarrow>
   set posts \<subseteq> set seen \<Longrightarrow> f < 10 \<Longrightarrow>
   \<exists>k. k \<le> length obs \<and> 10 \<le> f + k \<and> sc' = sc + k
     \<and> (\<forall>ob \<in> set (drop (k - 10) (take k obs)). failed_scroll ob)
     \<and> set posts' = set posts \<union> (links_of (take k obs) - set seen)"
proof (induction obs arbitrary: posts seen f sc)
  case Nil
  then show ?case by (simp split: if_splits)
next
  case (Cons ob obs)
  obtain p1 s1 where a: "add_new n (extract_posts (anchors ob)) (posts, seen) = (p1, s1)"
    by (cases "add_new n (extract_posts (anchors ob)) (posts, seen)")
  have len: "length posts < n" using Cons.prems(1,2) by (auto split: if_splits)
  have l1: "length p1 < n" using Cons.prems(1,2) a len by (auto split: if_splits)
  have s1: "set p1 = set posts \<union> (set (extract_posts (anchors ob)) - set seen)"
           "set s1 = set seen \<union> set (extract_posts (anchors ob))"
    using add_new_all [OF a l1 Cons.prems(3)] by simp_all
  have sub: "set p1 \<subseteq> set s1" using s1 Cons.prems(3) by auto
  show ?case
  proof (cases "failed_scroll ob")
    case failed: True
    show ?thesis
    proof (cases "f + 1 \<ge> 10")
      case True
      have "posts' = p1 \<and> sc' = sc + 1"
        using Cons.prems(1) a len l1 failed True
        by (auto simp: failed_scroll_def maxConsecutiveFailedScrolls_def)
      then show ?thesis using s1 True failed
        by (intro exI [of _ 1]) (auto simp: links_of_def)
    next
      case False
      have r: "discover_loop n obs p1 s1 (f + 1) (sc + 1) = Some (posts', seen', sc')"
        using Cons.prems(1) a len l1 failed False
        by (auto simp: failed_scroll_def maxConsecutiveFailedScrolls_def)
      from Cons.IH [OF r Cons.prems(2) sub] False obtain k where
        k: "k \<le> length obs" "10 \<le> f + 1 + k" "sc' = sc + 1 + k"
           "\<forall>ob \<in> set (drop (k - 10) (take k obs)). failed_scroll ob"
           "set posts' = set p1 \<union> (links_of (take k obs) - set s1)"
        by auto
      have run: "\<forall>x \<in> set (drop (Suc k - 10) (take (Suc k) (ob # obs))). failed_scroll x"
      proof (cases "k < 10")
        case True
        then have "Suc k - 10 = 0" "k - 10 = 0" by simp_all
        then show ?thesis using k(4) failed by simp
      next
        case False
        then have "Suc k - 10 = Suc (k - 10)" by arith
        then show ?thesis using k(4) by simp
      qed
      show ?thesis using k(1,2,3,5) run s1
        by (intro exI [of _ "Suc k"]) (auto simp: links_of_def)
    qed
  next
    case False
    have r: "discover_loop n obs p1 s1 0 (sc + 1) = Some (posts', seen', sc')"
      using Cons.prems(1) a len l1 False by (auto simp: failed_scroll_def)
    from Cons.IH [OF r Cons.prems(2) sub] obtain k where
      k: "k \<le> length obs" "10 \<le> k" "sc' = sc + 1 + k"
         "\<forall>ob \<in> set (drop (k - 10) (take k obs)). failed_scroll ob"
         "set posts' = set p1 \<union> (links_of (take k obs) - set s1)"
      by auto
    have "Suc k - 10 = Suc (k - 10)" using k(2) by arith
    then have run: "\<forall>x \<in> set (drop (Suc k - 10) (take (Suc k) (ob # obs))). failed_scroll x"
      using k(4) by simp
    show ?thesis using k(1,2,3,5) run s1
      by (intro exI [of _ "Suc k"]) (auto simp: links_of_def)
  qed
qed

lemma discover_w:
  "discoverInstagramPosts env_w crit_w 3 st_w =
     Some (Inr [''https://www.instagram.com/p/a/''], st_w', tr_w)"
  by code_simp

theorem discover_session_fresh_witness:
  "discover_session [(env_w, crit_w, 3), (env_w, crit_w, 3)] st_w = Some (outs_w, st_w')
   \<and> distinct (concat outs_w)
   \<and> set (concat outs_w) \<inter> set (allDiscoveredPosts st_w) = {}
   \<and> set (allDiscoveredPosts st_w) \<subseteq> set (allDiscoveredPosts st_w')
   \<and> length (allDiscoveredPosts st_w) \<le> length (allDiscoveredPosts st_w')"
proof -
  have h: "discover_session [(env_w, crit_w, 3), (env_w, crit_w, 3)] st_w = Some (outs_w, st_w')"
    by code_simp
  from discover_session_fresh [OF h] h show ?thesis by simp
qed

theorem discover_no_criteria_witness:
  "\<not> truthy (hashtag crit_none) \<and> \<not> truthy (keywords_field crit_none)
   \<and> discoverInstagramPosts env_w crit_none 3 st_w =
       Some (Inl (Error ''Either hashtag or keywords must be provided''), st_w, [])"
proof -
  have h: "\<not> truthy (hashtag crit_none)" "\<not> truthy (keywords_field crit_none)"
    by (simp_all add: truthy_def crit_none_def)
  from discover_no_criteria [OF h, of env_w 3 st_w] h show ?thesis by simp
qed

text \<open>
  C8. A call that returns gives at most \<open>N\<close> items. When it gives fewer, the loop
  has read some \<open>k \<ge> 10\<close> passes of which the last ten did not change the page
  height, and the result holds exactly the links of those passes that were not in the
  seen set. And whenever the passes contain ten consecutive failed scrolls (the listing
  is reachable, no login wall), the call returns a list, with no error.
\<close>

theorem discover_bounded_and_terminates:
  "(discoverInstagramPosts env crit N st = Some (Inr posts, st', tr) \<longrightarrow>
      length posts \<le> N \<and>
      (length posts < N \<longrightarrow>
        (\<exists>k \<le> length (passes env). 10 \<le> k
           \<and> (\<forall>ob \<in> set (drop (k - 10) (take k (passes env))). failed_scroll ob)
           \<and> set posts = links_of (take k (passes env)) - set (allDiscoveredPosts st))))
   \<and> (searchUrl_of crit \<noteq> None \<and> navigation env = Returns () \<and> \<not> needsLogin env
        \<and> (\<exists>pre fails post. passes env = pre @ fails @ post \<and> length fails = 10
              \<and> (\<forall>ob \<in> set fails. failed_scroll ob)) \<longrightarrow>
       (\<exists>posts st' tr. discoverInstagramPosts env crit N st = Some (Inr posts, st', tr)
           \<and> length posts \<le> N))"
proof (intro conjI impI)
  assume r: "discoverInstagramPosts env crit N st = Some (Inr posts, st', tr)"
  show "length posts \<le> N" using discover_returns(2) [OF r] .
next
  assume r: "discoverInstagramPosts env crit N st = Some (Inr posts, st', tr)"
    and less: "length posts < N"
  from r obtain u st1 tr1 sc where
    e: "enter_listing env u st = (None, st1, tr1)" and
    l: "discover_loop N (passes env) [] (allDiscoveredPosts st1) 0 0 = Some (posts, allDiscoveredPosts st', sc)"
    by (auto simp: discoverInstagramPosts_def Let_def split: option.splits prod.splits if_splits)
  have s: "allDiscoveredPosts st1 = allDiscoveredPosts st" using e by (rule enter_listing_seen)
  from discover_loop_exhausted [OF l less] show
    "\<exists>k \<le> length (passes env). 10 \<le> k
           \<and> (\<forall>ob \<in> set (drop (k - 10) (take k (passes env))). failed_scroll ob)
           \<and> set posts = links_of (take k (passes env)) - set (allDiscoveredPosts st)"
    using s by auto
next
  assume h: "searchUrl_of crit \<noteq> None \<and> navigation env = Returns () \<and> \<not> needsLogin env
        \<and> (\<exists>pre fails post. passes env = pre @ fails @ post \<and> length fails = 10
              \<and> (\<forall>ob \<in> set fails. failed_scroll ob))"
  then obtain pre fails post where p: "passes env = pre @ fails @ post" "length fails = 10"
    "\<forall>ob \<in> set fails. failed_scroll ob" by blast
  from h p obtain posts st' tr where
    r: "discoverInstagramPosts env crit N st = Some (Inr posts, st', tr)"
    using discover_exhausted [of crit env pre fails post N st] by blast
  then show "\<exists>posts st' tr. discoverInstagramPosts env crit N st = Some (Inr posts, st', tr)
           \<and> length posts \<le> N"
    using discover_returns(2) [OF r] by blast
qed

theorem discover_bounded_and_terminates_witness:
  "discoverInstagramPosts env_w crit_w 3 st_w =
     Some (Inr [''https://www.instagram.com/p/a/''], st_w', tr_w)
   \<and> length [''https://www.instagram.com/p/a/''] < (3::nat)
   \<and> (\<exists>k \<le> length (passes env_w). 10 \<le> k
         \<and> (\<forall>ob \<in> set (drop (k - 10) (take k (passes env_w))). failed_scroll ob)
         \<and> set [''https://www.instagram.com/p/a/''] =
             links_of (take k (passes env_w)) - set (allDiscoveredPosts st_w))
   \<and> searchUrl_of crit_w \<noteq> None \<and> navigation env_w = Returns () \<and> \<not> needsLogin env_w
   \<and> passes env_w = [pass_a] @ replicate 10 pass_b @ []
   \<and> length (replicate 10 pass_b) = 10
   \<and> list_all failed_scroll (replicate 10 pass_b)
   \<and> (\<exists>posts st' tr. discoverInstagramPosts env_w crit_w 3 st_w = Some (Inr posts, st', tr)
         \<and> length posts \<le> 3)"
proof -
  have h1: "searchUrl_of crit_w \<noteq> None"
    by (simp add: searchUrl_of_def crit_w_def truthy_def)
  have h2: "navigation env_w = Returns ()" "\<not> needsLogin env_w"
    "passes env_w = [pass_a] @ replicate 10 pass_b @ []"
    by (simp_all add: env_w_def)
  have h3: "\<forall>ob \<in> set (replicate 10 pass_b). failed_scroll ob"
    by (simp add: failed_scroll_def pass_b_def)
  have h4: "length (replicate 10 pass_b) = 10" by simp
  note t = discover_bounded_and_terminates
    [of env_w crit_w 3 st_w "[''https://www.instagram.com/p/a/'']" st_w' tr_w]
  have l: "length [''https://www.instagram.com/p/a/''] < (3::nat)" by simp
  have c1:
    "\<exists>k \<le> length (passes env_w). 10 \<le> k
         \<and> (\<forall>ob \<in> set (drop (k - 10) (take k (passes env_w))). failed_scroll ob)
         \<and> set [''https://www.instagram.com/p/a/''] =
             links_of (take k (passes env_w)) - set (allDiscoveredPosts st_w)"
    using conjunct1 [OF t, rule_format, OF discover_w, THEN conjunct2, rule_format, OF l] .
  have hyp: "searchUrl_of crit_w \<noteq> None \<and> navigation env_w = Returns () \<and> \<not> needsLogin env_w
        \<and> (\<exists>pre fails post. passes env_w = pre @ fails @ post \<and> length fails = 10
              \<and> (\<forall>ob \<in> set fails. failed_scroll ob))"
    using h1 h2 h3 h4 by (intro conjI exI [of _ "[pass_a]"] exI [of _ "replicate 10 pass_b"] exI [of _ "[]"])
  have c2: "\<exists>posts st' tr. discoverInstagramPosts env_w crit_w 3 st_w = Some (Inr posts, st', tr)
         \<and> length posts \<le> 3"
    using conjunct2 [OF t] hyp by (rule mp)
  have h5: "list_all failed_scroll (replicate 10 pass_b)"
    using h3 by (simp only: list_all_iff)
  show ?thesis
    using discover_w l c1 h1 h2 h4 h5 c2 by (intro conjI)
qed

section \<open>Properties of canonicalization\<close>












































section \<open>Properties of the login gate\<close>

lemma bare_post: "loginCheckResult view_bare"
  by code_simp

lemma bare_initial: "\<not> initialLoginCheck view_bare"
  by code_simp

lemma login_w_returns: "fst (ensureInstagramLoggedIn login_w) = Inr True"
  by code_simp

lemma login_alert_throws:
  "fst (ensureInstagramLoggedIn (login_w\<lparr>view1 := view_alert\<rparr>)) =
     Inl (Error ''Instagram login failed: Wrong password'')"
  by code_simp

text \<open>
  C5, as stated: after the submit the same four signals decide. The function returns
  true on a page with no chrome indicator at all (not the login route, no form field,
  no alert), which the initial check classifies as not logged in.
\<close>

theorem post_submit_check_differs:
  "fst (ensureInstagramLoggedIn login_w) = Inr True \<and> \<not> initialLoginCheck (view1 login_w)
   \<and> \<not> hasLoginIndicators (view1 login_w)"
proof -
  have v: "view1 login_w = view_bare" by (simp add: login_w_def)
  have "\<not> hasLoginIndicators view_bare" by code_simp
  then show ?thesis using login_w_returns bare_initial unfolding v by (intro conjI)
qed

text \<open>
  C5, amended. After the submit a separate check decides: the login counts as
  successful exactly when some chrome indicator is present or the page is no longer the
  login page (not the login route, no username or password field), and no error alert
  is present; the title is not consulted. Otherwise the function throws
  \<open>Instagram login failed:\<close> with the first alert's text, or a generic message.
\<close>

theorem post_submit_check:
  "\<not> initialLoginCheck (view0 env) \<and> truthy (username env) \<and> truthy (password env)
     \<and> loginForm env = Returns () \<longrightarrow>
   (fst (ensureInstagramLoggedIn env) = Inr True) =
     ((hasIndicators (view1 env) \<or> \<not> stillOnLoginPage (view1 env)) \<and> \<not> hasErrors (view1 env))
   \<and> (fst (ensureInstagramLoggedIn env) \<noteq> Inr True \<longrightarrow>
        fst (ensureInstagramLoggedIn env) =
          Inl (Error (''Instagram login failed: '' @ errorText (view1 env))))"
  by (simp add: ensureInstagramLoggedIn_def Let_def loginCheckResult_def)

theorem post_submit_check_witness:
  "\<not> initialLoginCheck (view0 login_w) \<and> truthy (username login_w) \<and> truthy (password login_w)
   \<and> loginForm login_w = Returns ()
   \<and> (fst (ensureInstagramLoggedIn login_w) = Inr True) =
       ((hasIndicators (view1 login_w) \<or> \<not> stillOnLoginPage (view1 login_w))
        \<and> \<not> hasErrors (view1 login_w))"
proof -
  have h: "\<not> initialLoginCheck (view0 login_w) \<and> truthy (username login_w)
           \<and> truthy (password login_w) \<and> loginForm login_w = Returns ()"
    by code_simp
  from post_submit_check [of login_w, THEN mp, OF h] h show ?thesis by blast
qed

section \<open>Properties of the favorite action\<close>




lemma like_failure_keeps:
  "instagramLike env postUrl liked = (Inr False, liked', tr) \<Longrightarrow> liked' = liked"
  by (auto simp: instagramLike_def Let_def
           split: if_splits attempt.splits option.splits prod.splits bool.splits)





section \<open>Properties of the reply action\<close>

lemma comment_skip:
  "alreadyCommented env = Returns True \<Longrightarrow>
   instagramComment env postUrl comment skipNavigation = (skip_outcome, [])"
  by (simp add: instagramComment_def)


lemma comment_v2_skip:
  "alreadyCommented env = Returns True \<Longrightarrow>
   instagramComment_v2 env postUrl comment skipNavigation = (Inr skip_outcome, [])"
  by (simp add: instagramComment_v2_def)

lemma comment_w_first:
  "instagramComment comment_w ''https://www.instagram.com/p/a/'' ''Nice'' False =
     (posted, [Goto ''https://www.instagram.com/p/a/'', Click ''comment input'', ClearInput,
               TypeText ''Nice'', Click ''post button''])"
  by code_simp

lemma comment_w_second:
  "fst (instagramComment_v2 comment_w ''https://www.instagram.com/p/a/'' ''Nice'' False) =
     Inl (Error ''Comment verification failed - comment may not have been posted'')"
  by code_simp


lemma submit_reason:
  "submit_comment env = (r, tr) \<Longrightarrow>
   \<not> (success r \<and> skipped r) \<and> (\<not> success r \<and> \<not> skipped r \<longrightarrow> reason r \<noteq> None)"
  by (auto simp: submit_comment_def failure_def posted_def split: if_splits attempt.splits)

lemma on_page_reason:
  "comment_on_page env comment tr0 = (r, tr) \<Longrightarrow>
   \<not> (success r \<and> skipped r) \<and> (\<not> success r \<and> \<not> skipped r \<longrightarrow> reason r \<noteq> None)"
proof (cases "\<not> inputFound env \<and> \<not> inputFoundAfterScroll env")
  case True
  assume "comment_on_page env comment tr0 = (r, tr)"
  then have "r = failure ''Comment input field not found''"
    using True by (simp add: comment_on_page_def)
  then show ?thesis by (simp add: failure_def)
next
  case False
  assume a: "comment_on_page env comment tr0 = (r, tr)"
  obtain r2 tr2 where s: "submit_comment env = (r2, tr2)" by (cases "submit_comment env")
  have "r = r2" using a False s by (simp add: comment_on_page_def Let_def)
  then show ?thesis using submit_reason [OF s] by simp
qed

lemma comment_reason:
  assumes "instagramComment env postUrl comment skipNavigation = (r, tr)"
  shows "\<not> (success r \<and> skipped r) \<and> (\<not> success r \<and> \<not> skipped r \<longrightarrow> reason r \<noteq> None)"
proof (cases "alreadyCommented env")
  case (Throws m)
  then have "r = failure m" using assms by (simp add: instagramComment_def)
  then show ?thesis by (simp add: failure_def)
next
  case (Returns b)
  show ?thesis
  proof (cases b)
    case True
    then have "r = skip_outcome" using assms Returns by (simp add: instagramComment_def)
    then show ?thesis by (simp add: skip_outcome_def)
  next
    case False
    show ?thesis
    proof (cases skipNavigation)
      case True
      then have "comment_on_page env comment [] = (r, tr)"
        using assms Returns False by (simp add: instagramComment_def)
      then show ?thesis by (rule on_page_reason)
    next
      case nav: False
      show ?thesis
      proof (cases "comment_goto env")
        case (Throws m)
        then have "r = failure m" using assms Returns False nav by (simp add: instagramComment_def)
        then show ?thesis by (simp add: failure_def)
      next
        case (Returns u)
        then have "comment_on_page env comment [Goto postUrl] = (r, tr)"
          using assms \<open>alreadyCommented env = Returns b\<close> False nav
          by (simp add: instagramComment_def)
        then show ?thesis by (rule on_page_reason)
      qed
    qed
  qed
qed

lemma comment_on_page_success:
  "inputFound env \<or> inputFoundAfterScroll env \<Longrightarrow>
   success (fst (comment_on_page env comment tr0)) = success (fst (submit_comment env))"
  by (auto simp: comment_on_page_def Let_def split: prod.splits)

lemma comment_reaches:
  "reaches_input env skipNavigation \<Longrightarrow>
   success (fst (instagramComment env postUrl comment skipNavigation)) = success (fst (submit_comment env))"
  using comment_on_page_success [of env comment]
  by (cases "comment_goto env") (auto simp: reaches_input_def instagramComment_def)

lemma comment_v2_reaches:
  "reaches_input env skipNavigation \<Longrightarrow>
   fst (instagramComment_v2 env postUrl comment skipNavigation) =
     (if inputCleared env \<or> commentPosted env then Inr posted
      else Inl (Error ''Comment verification failed - comment may not have been posted''))"
  by (cases "comment_goto env")
     (auto simp: reaches_input_def instagramComment_v2_def comment_on_page_v2_def Let_def)

text \<open>
  C4, as stated: success exactly when the verification sees the input cleared or the
  reply text, a failure outcome with a reason otherwise, and no exception. With the
  submit control clicked and neither signal seen, the first listing returns success
  with no reason, and the second listing throws.
\<close>

theorem comment_unverified_outcomes:
  "fst (instagramComment comment_w ''https://www.instagram.com/p/a/'' ''Nice'' False) = posted
   \<and> success posted \<and> reason posted = None
   \<and> \<not> inputCleared comment_w \<and> \<not> commentPosted comment_w
   \<and> fst (instagramComment_v2 comment_w ''https://www.instagram.com/p/a/'' ''Nice'' False) =
       Inl (Error ''Comment verification failed - comment may not have been posted'')"
  unfolding comment_w_first comment_w_second fst_conv
  by (simp add: posted_def comment_w_def)

text \<open>
  C4, amended. First listing: every outcome that is neither a success nor a skip carries
  a reason, and no outcome is both; once the submit control has been clicked the outcome
  is a success whatever the verification sees; when no submit control is found, Enter is
  pressed and the outcome is a success exactly when the reply text is then found. Second
  listing: once a text-entry control is reached, the call returns success exactly when
  the input is cleared or the reply text is found, and otherwise throws
  \<open>Comment verification failed - comment may not have been posted\<close>.
\<close>

theorem comment_outcomes:
  "(instagramComment env postUrl comment skipNavigation = (r, tr) \<longrightarrow>
      \<not> (success r \<and> skipped r) \<and> (\<not> success r \<and> \<not> skipped r \<longrightarrow> reason r \<noteq> None))
   \<and> (reaches_input env skipNavigation \<and> postButton env \<and> clickPost env = Returns () \<longrightarrow>
        success (fst (instagramComment env postUrl comment skipNavigation)))
   \<and> (reaches_input env skipNavigation \<and> \<not> postButton env \<longrightarrow>
        success (fst (instagramComment env postUrl comment skipNavigation)) = enterPosted env)
   \<and> (reaches_input env skipNavigation \<longrightarrow>
        fst (instagramComment_v2 env postUrl comment skipNavigation) =
          (if inputCleared env \<or> commentPosted env then Inr posted
           else Inl (Error ''Comment verification failed - comment may not have been posted'')))"
proof (intro conjI impI)
  assume "instagramComment env postUrl comment skipNavigation = (r, tr)"
  then show "\<not> (success r \<and> skipped r)" "\<not> success r \<and> \<not> skipped r \<Longrightarrow> reason r \<noteq> None"
    using comment_reason [of env postUrl comment skipNavigation r tr] by blast+
next
  assume a: "reaches_input env skipNavigation \<and> postButton env \<and> clickPost env = Returns ()"
  then have "success (fst (submit_comment env))"
    by (simp add: submit_comment_def posted_def)
  then show "success (fst (instagramComment env postUrl comment skipNavigation))"
    using a comment_reaches [of env skipNavigation postUrl comment] by simp
next
  assume a: "reaches_input env skipNavigation \<and> \<not> postButton env"
  then have "success (fst (submit_comment env)) = enterPosted env"
    by (simp add: submit_comment_def posted_def failure_def)
  then show "success (fst (instagramComment env postUrl comment skipNavigation)) = enterPosted env"
    using a comment_reaches [of env skipNavigation postUrl comment] by simp
next
  assume "reaches_input env skipNavigation"
  then show "fst (instagramComment_v2 env postUrl comment skipNavigation) =
          (if inputCleared env \<or> commentPosted env then Inr posted
           else Inl (Error ''Comment verification failed - comment may not have been posted''))"
    by (rule comment_v2_reaches)
qed

theorem comment_outcomes_witness:
  "instagramComment comment_w ''https://www.instagram.com/p/a/'' ''Nice'' False =
     (posted, [Goto ''https://www.instagram.com/p/a/'', Click ''comment input'', ClearInput,
               TypeText ''Nice'', Click ''post button''])
   \<and> \<not> (success posted \<and> skipped posted)
   \<and> reaches_input comment_w False \<and> postButton comment_w \<and> clickPost comment_w = Returns ()
   \<and> success (fst (instagramComment comment_w ''https://www.instagram.com/p/a/'' ''Nice'' False))
   \<and> reaches_input comment_enter False \<and> \<not> postButton comment_enter
   \<and> success (fst (instagramComment comment_enter ''https://www.instagram.com/p/a/'' ''Nice'' False))
       = enterPosted comment_enter
   \<and> fst (instagramComment_v2 comment_w ''https://www.instagram.com/p/a/'' ''Nice'' False) =
       Inl (Error ''Comment verification failed - comment may not have been posted'')"
proof -
  note t1 = comment_outcomes [of comment_w "''https://www.instagram.com/p/a/''" "''Nice''" False
              posted "[Goto ''https://www.instagram.com/p/a/'', Click ''comment input'', ClearInput,
               TypeText ''Nice'', Click ''post button'']"]
  note t2 = comment_outcomes [of comment_enter "''https://www.instagram.com/p/a/''" "''Nice''" False]
  have h1: "reaches_input comment_w False \<and> postButton comment_w \<and> clickPost comment_w = Returns ()"
    by (simp add: reaches_input_def comment_w_def)
  have h2: "reaches_input comment_enter False \<and> \<not> postButton comment_enter"
    by (simp add: reaches_input_def comment_enter_def comment_w_def)
  have a: "\<not> (success posted \<and> skipped posted)"
    using t1 [THEN conjunct1, THEN mp, OF comment_w_first] by blast
  have b: "success (fst (instagramComment comment_w ''https://www.instagram.com/p/a/'' ''Nice'' False))"
    using t1 [THEN conjunct2, THEN conjunct1, THEN mp, OF h1] .
  have c: "success (fst (instagramComment comment_enter ''https://www.instagram.com/p/a/'' ''Nice'' False))
             = enterPosted comment_enter"
    using t2 [THEN conjunct2, THEN conjunct2, THEN conjunct1, THEN mp, OF h2] .
  have d: "fst (instagramComment_v2 comment_w ''https://www.instagram.com/p/a/'' ''Nice'' False) =
       Inl (Error ''Comment verification failed - comment may not have been posted'')"
    by (rule comment_w_second)
  show ?thesis using comment_w_first a h1 b h2 c d by blast
qed

section \<open>Properties of the batch loop\<close>

lemma scenario_B:
  "map_option (\<lambda>r. (fst r, successfulComments (snd r), consecutiveEmptyBatches (snd r)))
     (batch_loop (cfg_w\<lparr>maxPosts := 5\<rparr>) (replicate 5 batch_empty) st0_w)
   = Some (EmptyBatches, 0, 5)"
  by code_simp

lemma like_step_frame:
  "like_step cfg ie postUrl st = (ok, st1) \<Longrightarrow>
   successfulComments st1 = successfulComments st \<and> attempts st1 = attempts st
   \<and> consecutiveEmptyBatches st1 = consecutiveEmptyBatches st \<and> disc st1 = disc st
   \<and> requested st1 = requested st \<and> replied st1 = replied st"
  by (auto simp: like_step_def split: if_splits prod.splits sum.splits)

lemma process_post_frame:
  "consecutiveEmptyBatches (process_post cfg ie postUrl st) = consecutiveEmptyBatches st
   \<and> disc (process_post cfg ie postUrl st) = disc st
   \<and> requested (process_post cfg ie postUrl st) = requested st
   \<and> attempts (process_post cfg ie postUrl st) = attempts st"
proof -
  obtain ok st1 where l: "like_step cfg ie postUrl st = (ok, st1)" by (cases "like_step cfg ie postUrl st")
  show ?thesis
    using like_step_frame [OF l] l
    by (auto simp: process_post_def Let_def split: attempt.splits bool.splits)
qed

lemma process_post_count:
  "successfulComments st \<le> successfulComments (process_post cfg ie postUrl st)
   \<and> successfulComments (process_post cfg ie postUrl st) \<le> successfulComments st + 1"
proof -
  obtain ok st1 where l: "like_step cfg ie postUrl st = (ok, st1)" by (cases "like_step cfg ie postUrl st")
  show ?thesis
    using like_step_frame [OF l] l
    by (auto simp: process_post_def Let_def split: attempt.splits bool.splits)
qed

lemma process_posts_frame:
  "process_posts cfg ienv posts st = (r, st') \<Longrightarrow>
   consecutiveEmptyBatches st' = consecutiveEmptyBatches st \<and> disc st' = disc st
   \<and> requested st' = requested st"
proof (induction posts arbitrary: st)
  case Nil
  then show ?case by simp
next
  case (Cons u posts)
  show ?case
  proof (cases "successfulComments st \<ge> maxPosts cfg")
    case True
    then show ?thesis using Cons.prems by simp
  next
    case False
    show ?thesis
    proof (cases "report (ienv u)")
      case (Throws m)
      then show ?thesis using Cons.prems False by (auto simp: Let_def)
    next
      case (Returns x)
      let ?st1 = "st\<lparr>attempts := attempts st + 1\<rparr>"
      have "process_posts cfg ienv posts (process_post cfg (ienv u) u ?st1) = (r, st')"
        using Cons.prems False Returns by (simp add: Let_def)
      from Cons.IH [OF this] show ?thesis
        using process_post_frame [of cfg "ienv u" u ?st1] by simp
    qed
  qed
qed

lemma process_posts_count:
  "process_posts cfg ienv posts st = (r, st') \<Longrightarrow> successfulComments st \<le> maxPosts cfg \<Longrightarrow>
   successfulComments st \<le> successfulComments st' \<and> successfulComments st' \<le> maxPosts cfg"
proof (induction posts arbitrary: st)
  case Nil
  then show ?case by simp
next
  case (Cons u posts)
  show ?case
  proof (cases "successfulComments st \<ge> maxPosts cfg")
    case True
    then show ?thesis using Cons.prems by simp
  next
    case False
    show ?thesis
    proof (cases "report (ienv u)")
      case (Throws m)
      then show ?thesis using Cons.prems False by (auto simp: Let_def)
    next
      case (Returns x)
      let ?st1 = "st\<lparr>attempts := attempts st + 1\<rparr>"
      let ?st2 = "process_post cfg (ienv u) u ?st1"
      have p: "process_posts cfg ienv posts ?st2 = (r, st')"
        using Cons.prems False Returns by (simp add: Let_def)
      have c: "successfulComments st \<le> successfulComments ?st2"
              "successfulComments ?st2 \<le> successfulComments st + 1"
        using process_post_count [of ?st1 cfg "ienv u" u] by simp_all
      then have "successfulComments ?st2 \<le> maxPosts cfg" using False by simp
      from Cons.IH [OF p this] c show ?thesis by simp
    qed
  qed
qed

lemma batch_loop_step:
  assumes run: "batch_loop cfg (b # bs) st = Some (ex, st')"
    and less: "successfulComments st < maxPosts cfg"
  defines "st1 \<equiv> st\<lparr>requested := requested st @ [batchSize cfg]\<rparr>"
  defines "disc_result \<equiv> discoverInstagramPosts (disc_env b) (criteria cfg) (batchSize cfg) (disc st)"
  obtains
    (threw) m d tr where "disc_result = Some (Inl (Error m), d, tr)" "ex = BatchError m"
      "st' = st1\<lparr>disc := d\<rparr>"
  | (exhausted) d tr where "disc_result = Some (Inr [], d, tr)"
      "consecutiveEmptyBatches st + 1 \<ge> maxConsecutiveEmptyBatches" "ex = EmptyBatches"
      "st' = st1\<lparr>disc := d, consecutiveEmptyBatches := consecutiveEmptyBatches st + 1\<rparr>"
  | (empty) d tr where "disc_result = Some (Inr [], d, tr)"
      "consecutiveEmptyBatches st + 1 < maxConsecutiveEmptyBatches"
      "batch_loop cfg bs (st1\<lparr>disc := d, consecutiveEmptyBatches := consecutiveEmptyBatches st + 1\<rparr>)
         = Some (ex, st')"
  | (report) posts d tr m st3 where "disc_result = Some (Inr posts, d, tr)" "posts \<noteq> []"
      "process_posts cfg (items b) posts (st1\<lparr>disc := d, consecutiveEmptyBatches := 0\<rparr>) = (Some m, st3)"
      "ex = BatchError m" "st' = st3"
  | (target) posts d tr st3 where "disc_result = Some (Inr posts, d, tr)" "posts \<noteq> []"
      "process_posts cfg (items b) posts (st1\<lparr>disc := d, consecutiveEmptyBatches := 0\<rparr>) = (None, st3)"
      "successfulComments st3 \<ge> maxPosts cfg" "ex = TargetReached" "st' = st3"
  | (next_batch) posts d tr st3 where "disc_result = Some (Inr posts, d, tr)" "posts \<noteq> []"
      "process_posts cfg (items b) posts (st1\<lparr>disc := d, consecutiveEmptyBatches := 0\<rparr>) = (None, st3)"
      "successfulComments st3 < maxPosts cfg" "batch_loop cfg bs st3 = Some (ex, st')"
proof -
  have d1: "disc st1 = disc st" by (simp add: st1_def)
  have e1: "consecutiveEmptyBatches st1 = consecutiveEmptyBatches st" by (simp add: st1_def)
  have unfold: "batch_loop cfg (b # bs) st =
     (case disc_result of
        None \<Rightarrow> None
      | Some (Inl (Error m), d, tr) \<Rightarrow> Some (BatchError m, st1\<lparr>disc := d\<rparr>)
      | Some (Inr posts, d, tr) \<Rightarrow>
          if posts = [] then
            (let st2 = st1\<lparr>disc := d, consecutiveEmptyBatches := consecutiveEmptyBatches st1 + 1\<rparr>
             in if consecutiveEmptyBatches st2 \<ge> maxConsecutiveEmptyBatches
                then Some (EmptyBatches, st2)
                else batch_loop cfg bs st2)
          else
            (case process_posts cfg (items b) posts (st1\<lparr>disc := d, consecutiveEmptyBatches := 0\<rparr>) of
               (Some m, st3) \<Rightarrow> Some (BatchError m, st3)
             | (None, st3) \<Rightarrow>
                 if successfulComments st3 \<ge> maxPosts cfg then Some (TargetReached, st3)
                 else batch_loop cfg bs st3))"
    using less
    by (simp add: Let_def st1_def disc_result_def
             split: option.splits prod.splits sum.splits error.splits)
  show ?thesis
  proof (cases disc_result)
    case None
    then show ?thesis using run unfold by simp
  next
    case (Some res)
    obtain r d tr where res: "res = (r, d, tr)" by (cases res)
    show ?thesis
    proof (cases r)
      case (Inl e)
      obtain m where e: "e = Error m" by (cases e)
      have f: "disc_result = Some (Inl (Error m), d, tr)" using Some res Inl e by simp
      show ?thesis using run unfold f by (intro threw [of m d tr]) simp_all
    next
      case (Inr posts)
      have f: "disc_result = Some (Inr posts, d, tr)" using Some res Inr by simp
      show ?thesis
      proof (cases "posts = []")
        case True
        show ?thesis
        proof (cases "consecutiveEmptyBatches st + 1 \<ge> maxConsecutiveEmptyBatches")
          case stop: True
          show ?thesis using run unfold f True stop e1
            by (intro exhausted [of d tr]) (simp_all add: Let_def)
        next
          case go: False
          show ?thesis using run unfold f True go e1
            by (intro empty [of d tr]) (simp_all add: Let_def)
        qed
      next
        case False
        obtain pr st3 where pp:
          "process_posts cfg (items b) posts (st1\<lparr>disc := d, consecutiveEmptyBatches := 0\<rparr>) = (pr, st3)"
          by (cases "process_posts cfg (items b) posts (st1\<lparr>disc := d, consecutiveEmptyBatches := 0\<rparr>)")
        show ?thesis
        proof (cases pr)
          case (Some m)
          show ?thesis using run unfold f False pp Some
            by (intro report [of posts d tr m st3]) simp_all
        next
          case None
          show ?thesis
          proof (cases "successfulComments st3 \<ge> maxPosts cfg")
            case True
            show ?thesis using run unfold f False pp None True
              by (intro target [of posts d tr st3]) simp_all
          next
            case go: False
            show ?thesis using run unfold f False pp None go
              by (intro next_batch [of posts d tr st3]) simp_all
          qed
        qed
      qed
    qed
  qed
qed

lemma process_posts_report:
  "process_posts cfg ienv posts st = (Some m, st') \<Longrightarrow> \<exists>u \<in> set posts. report (ienv u) = Throws m"
proof (induction posts arbitrary: st)
  case Nil
  then show ?case by simp
next
  case (Cons u posts)
  have less: "\<not> successfulComments st \<ge> maxPosts cfg" using Cons.prems by auto
  show ?case
  proof (cases "report (ienv u)")
    case (Throws m')
    then have "m' = m" using Cons.prems less by (simp add: Let_def)
    then show ?thesis using Throws by simp
  next
    case (Returns x)
    then have "process_posts cfg ienv posts
                 (process_post cfg (ienv u) u (st\<lparr>attempts := attempts st + 1\<rparr>)) = (Some m, st')"
      using Cons.prems less by (simp add: Let_def)
    from Cons.IH [OF this] show ?thesis by auto
  qed
qed

lemma batch_loop_exits:
  assumes "batch_loop cfg bs st = Some (ex, st')"
    and "successfulComments st \<le> maxPosts cfg"
    and "consecutiveEmptyBatches st < maxConsecutiveEmptyBatches"
  shows "(ex = LoopCondition \<or> ex = TargetReached \<longrightarrow> successfulComments st' = maxPosts cfg)
    \<and> (ex = EmptyBatches \<longrightarrow> consecutiveEmptyBatches st' = maxConsecutiveEmptyBatches)
    \<and> (\<forall>m. ex = BatchError m \<longrightarrow>
          (\<exists>b \<in> set bs.
             (\<exists>d0 d tr. discoverInstagramPosts (disc_env b) (criteria cfg) (batchSize cfg) d0
                          = Some (Inl (Error m), d, tr))
             \<or> (\<exists>u. report (items b u) = Throws m)))"
  using assms
proof (induction bs arbitrary: st)
  case Nil
  then have "ex = LoopCondition" "st' = st" "\<not> successfulComments st < maxPosts cfg"
    by (auto split: if_splits)
  then show ?case using Nil.prems(2) by auto
next
  case (Cons b bs)
  show ?case
  proof (cases "successfulComments st < maxPosts cfg")
    case False
    then have "ex = LoopCondition" "st' = st" using Cons.prems(1) by auto
    then show ?thesis using False Cons.prems(2) by auto
  next
    case True
    from Cons.prems(1) True show ?thesis
    proof (cases rule: batch_loop_step)
      case (threw m d tr)
      then show ?thesis by auto
    next
      case (exhausted d tr)
      then show ?thesis using Cons.prems(3) by auto
    next
      case (empty d tr)
      let ?st2 = "st\<lparr>requested := requested st @ [batchSize cfg], disc := d,
                     consecutiveEmptyBatches := consecutiveEmptyBatches st + 1\<rparr>"
      have "successfulComments ?st2 \<le> maxPosts cfg" using Cons.prems(2) by simp
      moreover have "consecutiveEmptyBatches ?st2 < maxConsecutiveEmptyBatches" using empty(2) by simp
      ultimately show ?thesis using Cons.IH [OF empty(3)] by auto
    next
      case (report posts d tr m st3)
      from process_posts_report [OF report(3)] obtain u where "report (items b u) = Throws m" by blast
      then show ?thesis using report(4) by auto
    next
      case (target posts d tr st3)
      have "successfulComments st3 \<le> maxPosts cfg"
        using process_posts_count [OF target(3)] Cons.prems(2) by simp
      then show ?thesis using target(4,5,6) by auto
    next
      case (next_batch posts d tr st3)
      have "successfulComments st3 \<le> maxPosts cfg"
        using process_posts_count [OF next_batch(3)] Cons.prems(2) by simp
      moreover have "consecutiveEmptyBatches st3 < maxConsecutiveEmptyBatches"
        using process_posts_frame [OF next_batch(3)] by (simp add: maxConsecutiveEmptyBatches_def)
      ultimately show ?thesis using Cons.IH [OF next_batch(5)] by auto
    qed
  qed
qed

lemma batch_without_success_continues:
  assumes "successfulComments st < maxPosts cfg"
    and "discoverInstagramPosts (disc_env b) (criteria cfg) (batchSize cfg) (disc st) = Some (Inr posts, d, tr)"
    and "posts \<noteq> []"
    and "process_posts cfg (items b) posts
           (st\<lparr>requested := requested st @ [batchSize cfg], disc := d, consecutiveEmptyBatches := 0\<rparr>)
         = (None, st3)"
    and "successfulComments st3 = successfulComments st"
  shows "batch_loop cfg (b # bs) st = batch_loop cfg bs st3"
  using assms by (simp add: Let_def)

lemma run_w: "batch_loop cfg_w (batch_two # replicate 5 batch_empty) st0_w = Some (EmptyBatches, st_end)"
  by code_simp

lemma run_first_batch:
  "batch_loop cfg_w (batch_two # replicate 5 batch_empty) st0_w
     = batch_loop cfg_w (replicate 5 batch_empty) st_after_two"
  by code_simp

lemma run_rest: "batch_loop cfg_w (replicate 5 batch_empty) st_after_two = Some (EmptyBatches, st_end)"
  by code_simp

lemma discover_first: 
  "discoverInstagramPosts (disc_env batch_skips) (criteria cfg_w) (batchSize cfg_w) (disc st0_w)
     = Some (Inr [''https://www.instagram.com/p/a/'', ''https://www.instagram.com/p/b/''], disc_ab, tr_w)"
  by code_simp

lemma skipped_batch:
  "process_posts cfg_w (items batch_skips)
     [''https://www.instagram.com/p/a/'', ''https://www.instagram.com/p/b/'']
     (st0_w\<lparr>requested := requested st0_w @ [batchSize cfg_w], disc := disc_ab,
            consecutiveEmptyBatches := 0\<rparr>)
   = (None, st_skipped)"
  by code_simp

text \<open>
  C1. A run of the loop that returns, started with the success counter at most the target
  and fewer than five consecutive empty batches, left the loop in one of three ways:
  with the success counter equal to the target (at the loop condition or at the check
  after a batch); with the empty-batch counter equal to five; or on an exception with
  message \<open>m\<close> thrown by a discover call on one of the batches or by a progress
  report on one of its posts. And a batch that is not empty and brings no success does
  not end the loop: the run goes on with the next batch.
\<close>

theorem batch_loop_stops_for_three_reasons:
  "(batch_loop cfg bs st = Some (ex, st') \<and> successfulComments st \<le> maxPosts cfg
      \<and> consecutiveEmptyBatches st < maxConsecutiveEmptyBatches \<longrightarrow>
      (ex = LoopCondition \<or> ex = TargetReached \<longrightarrow> successfulComments st' = maxPosts cfg)
      \<and> (ex = EmptyBatches \<longrightarrow> consecutiveEmptyBatches st' = maxConsecutiveEmptyBatches)
      \<and> (\<forall>m. ex = BatchError m \<longrightarrow>
            (\<exists>b \<in> set bs.
               (\<exists>d0 d tr. discoverInstagramPosts (disc_env b) (criteria cfg) (batchSize cfg) d0
                            = Some (Inl (Error m), d, tr))
               \<or> (\<exists>u. report (items b u) = Throws m))))
   \<and> (successfulComments st < maxPosts cfg
        \<and> discoverInstagramPosts (disc_env b) (criteria cfg) (batchSize cfg) (disc st)
            = Some (Inr posts, d, tr)
        \<and> posts \<noteq> []
        \<and> process_posts cfg (items b) posts
             (st\<lparr>requested := requested st @ [batchSize cfg], disc := d, consecutiveEmptyBatches := 0\<rparr>)
            = (None, st3)
        \<and> successfulComments st3 = successfulComments st \<longrightarrow>
        batch_loop cfg (b # bs) st = batch_loop cfg bs st3)"
proof (rule conjI)
  show "batch_loop cfg bs st = Some (ex, st') \<and> successfulComments st \<le> maxPosts cfg
      \<and> consecutiveEmptyBatches st < maxConsecutiveEmptyBatches \<longrightarrow>
      (ex = LoopCondition \<or> ex = TargetReached \<longrightarrow> successfulComments st' = maxPosts cfg)
      \<and> (ex = EmptyBatches \<longrightarrow> consecutiveEmptyBatches st' = maxConsecutiveEmptyBatches)
      \<and> (\<forall>m. ex = BatchError m \<longrightarrow>
            (\<exists>b \<in> set bs.
               (\<exists>d0 d tr. discoverInstagramPosts (disc_env b) (criteria cfg) (batchSize cfg) d0
                            = Some (Inl (Error m), d, tr))
               \<or> (\<exists>u. report (items b u) = Throws m)))"
  proof (rule impI)
    assume a: "batch_loop cfg bs st = Some (ex, st') \<and> successfulComments st \<le> maxPosts cfg
      \<and> consecutiveEmptyBatches st < maxConsecutiveEmptyBatches"
    show "(ex = LoopCondition \<or> ex = TargetReached \<longrightarrow> successfulComments st' = maxPosts cfg)
      \<and> (ex = EmptyBatches \<longrightarrow> consecutiveEmptyBatches st' = maxConsecutiveEmptyBatches)
      \<and> (\<forall>m. ex = BatchError m \<longrightarrow>
            (\<exists>b \<in> set bs.
               (\<exists>d0 d tr. discoverInstagramPosts (disc_env b) (criteria cfg) (batchSize cfg) d0
                            = Some (Inl (Error m), d, tr))
               \<or> (\<exists>u. report (items b u) = Throws m)))"
      by (rule batch_loop_exits [of cfg bs st ex st']) (use a in simp_all)
  qed
next
  show "successfulComments st < maxPosts cfg
        \<and> discoverInstagramPosts (disc_env b) (criteria cfg) (batchSize cfg) (disc st)
            = Some (Inr posts, d, tr)
        \<and> posts \<noteq> []
        \<and> process_posts cfg (items b) posts
             (st\<lparr>requested := requested st @ [batchSize cfg], disc := d, consecutiveEmptyBatches := 0\<rparr>)
            = (None, st3)
        \<and> successfulComments st3 = successfulComments st \<longrightarrow>
        batch_loop cfg (b # bs) st = batch_loop cfg bs st3"
  proof (rule impI)
    assume a: "successfulComments st < maxPosts cfg
        \<and> discoverInstagramPosts (disc_env b) (criteria cfg) (batchSize cfg) (disc st)
            = Some (Inr posts, d, tr)
        \<and> posts \<noteq> []
        \<and> process_posts cfg (items b) posts
             (st\<lparr>requested := requested st @ [batchSize cfg], disc := d, consecutiveEmptyBatches := 0\<rparr>)
            = (None, st3)
        \<and> successfulComments st3 = successfulComments st"
    show "batch_loop cfg (b # bs) st = batch_loop cfg bs st3"
      by (rule batch_without_success_continues [of st cfg b posts d tr st3 bs]) (use a in simp_all)
  qed
qed

theorem batch_loop_stops_for_three_reasons_witness:
  "batch_loop cfg_w (batch_two # replicate 5 batch_empty) st0_w = Some (EmptyBatches, st_end)
   \<and> successfulComments st0_w \<le> maxPosts cfg_w
   \<and> consecutiveEmptyBatches st0_w < maxConsecutiveEmptyBatches
   \<and> consecutiveEmptyBatches st_end = maxConsecutiveEmptyBatches
   \<and> successfulComments st0_w < maxPosts cfg_w
   \<and> discoverInstagramPosts (disc_env batch_skips) (criteria cfg_w) (batchSize cfg_w) (disc st0_w)
       = Some (Inr [''https://www.instagram.com/p/a/'', ''https://www.instagram.com/p/b/''], disc_ab, tr_w)
   \<and> process_posts cfg_w (items batch_skips)
         [''https://www.instagram.com/p/a/'', ''https://www.instagram.com/p/b/'']
         (st0_w\<lparr>requested := requested st0_w @ [batchSize cfg_w], disc := disc_ab,
                consecutiveEmptyBatches := 0\<rparr>)
       = (None, st_skipped)
   \<and> successfulComments st_skipped = successfulComments st0_w
   \<and> batch_loop cfg_w (batch_skips # batch_two # replicate 5 batch_empty) st0_w
       = batch_loop cfg_w (batch_two # replicate 5 batch_empty) st_skipped"
proof -
  note t = batch_loop_stops_for_three_reasons
    [of cfg_w "batch_two # replicate 5 batch_empty" st0_w EmptyBatches st_end batch_skips
        "[''https://www.instagram.com/p/a/'', ''https://www.instagram.com/p/b/'']" disc_ab tr_w st_skipped]
  have c: "successfulComments st0_w \<le> maxPosts cfg_w"
          "consecutiveEmptyBatches st0_w < maxConsecutiveEmptyBatches"
          "successfulComments st0_w < maxPosts cfg_w"
          "successfulComments st_skipped = successfulComments st0_w"
    by (simp_all add: st0_w_def run_start_def cfg_w_def maxConsecutiveEmptyBatches_def st_skipped_def)
  have h1: "batch_loop cfg_w (batch_two # replicate 5 batch_empty) st0_w = Some (EmptyBatches, st_end)
      \<and> successfulComments st0_w \<le> maxPosts cfg_w
      \<and> consecutiveEmptyBatches st0_w < maxConsecutiveEmptyBatches"
    using run_w c by simp
  have r1: "consecutiveEmptyBatches st_end = maxConsecutiveEmptyBatches"
    using t [THEN conjunct1, THEN mp, OF h1] by simp
  have ne: "[''https://www.instagram.com/p/a/'', ''https://www.instagram.com/p/b/''] \<noteq> ([] :: string list)"
    by simp
  have h2: "successfulComments st0_w < maxPosts cfg_w
        \<and> discoverInstagramPosts (disc_env batch_skips) (criteria cfg_w) (batchSize cfg_w) (disc st0_w)
            = Some (Inr [''https://www.instagram.com/p/a/'', ''https://www.instagram.com/p/b/''], disc_ab, tr_w)
        \<and> [''https://www.instagram.com/p/a/'', ''https://www.instagram.com/p/b/''] \<noteq> []
        \<and> process_posts cfg_w (items batch_skips)
             [''https://www.instagram.com/p/a/'', ''https://www.instagram.com/p/b/'']
             (st0_w\<lparr>requested := requested st0_w @ [batchSize cfg_w], disc := disc_ab,
                    consecutiveEmptyBatches := 0\<rparr>)
            = (None, st_skipped)
        \<and> successfulComments st_skipped = successfulComments st0_w"
    using c(3,4) discover_first ne skipped_batch by (intro conjI)
  have r2: "batch_loop cfg_w (batch_skips # batch_two # replicate 5 batch_empty) st0_w
       = batch_loop cfg_w (batch_two # replicate 5 batch_empty) st_skipped"
    using t [THEN conjunct2, THEN mp, OF h2] .
  show ?thesis using run_w c r1 discover_first skipped_batch r2 by (intro conjI)
qed

text \<open>
  C9, as stated: each request asks for min(10, 2 x the successes still missing). In the
  example run two of three successes are in after the first batch; with one missing the
  claim gives 2, and every later request asks for 6.
\<close>

theorem batch_size_ignores_progress:
  "batch_loop cfg_w (batch_two # replicate 5 batch_empty) st0_w
     = batch_loop cfg_w (replicate 5 batch_empty) st_after_two
   \<and> maxPosts cfg_w - successfulComments st_after_two = 1
   \<and> min 10 (2 * (maxPosts cfg_w - successfulComments st_after_two)) = 2
   \<and> requested st_after_two = [6]
   \<and> batch_loop cfg_w (replicate 5 batch_empty) st_after_two = Some (EmptyBatches, st_end)
   \<and> requested st_end = [6] @ [6, 6, 6, 6, 6]"
  using run_first_batch run_rest
  by (simp add: cfg_w_def st_after_two_def st_skipped_def st_end_def)

text \<open>
  C9, amended. Every request of a run asks for min(10, 2 x target), whatever the number
  of successes so far.
\<close>

theorem batch_loop_requested:
  "batch_loop cfg bs st = Some (ex, st') \<Longrightarrow>
   \<exists>k. requested st' = requested st @ replicate k (min 10 (maxPosts cfg * 2))"
proof (induction bs arbitrary: st)
  case Nil
  then have "st' = st" by (simp split: if_splits)
  then show ?case by (intro exI [of _ 0]) simp
next
  case (Cons b bs)
  let ?n = "min 10 (maxPosts cfg * 2)"
  let ?st1 = "st\<lparr>requested := requested st @ [batchSize cfg]\<rparr>"
  have one: "requested ?st1 = requested st @ replicate 1 ?n" by (simp add: batchSize_def)
  have later: "\<And>st2. requested st2 = requested ?st1 \<Longrightarrow> batch_loop cfg bs st2 = Some (ex, st') \<Longrightarrow>
                 \<exists>k. requested st' = requested st @ replicate k ?n"
  proof -
    fix st2 assume r: "requested st2 = requested ?st1" and l: "batch_loop cfg bs st2 = Some (ex, st')"
    from Cons.IH [OF l] obtain k where "requested st' = requested st2 @ replicate k ?n" by blast
    then have "requested st' = requested st @ replicate (Suc k) ?n"
      using r one by (simp add: replicate_app_Cons_same)
    then show "\<exists>k. requested st' = requested st @ replicate k ?n" by blast
  qed
  have now: "\<And>st2. requested st2 = requested ?st1 \<Longrightarrow> st' = st2 \<Longrightarrow>
               \<exists>k. requested st' = requested st @ replicate k ?n"
    using one by (intro exI [of _ 1]) simp
  show ?case
  proof (cases "successfulComments st < maxPosts cfg")
    case False
    then have "st' = st" using Cons.prems by simp
    then show ?thesis by (intro exI [of _ 0]) simp
  next
    case True
    show ?thesis
    proof (cases "discoverInstagramPosts (disc_env b) (criteria cfg) (batchSize cfg) (disc ?st1)")
      case None
      then show ?thesis using Cons.prems True by (simp add: Let_def)
    next
      case (Some res)
      obtain r d tr where res: "res = (r, d, tr)" by (cases res)
      show ?thesis
      proof (cases r)
        case (Inl e)
        obtain m where e: "e = Error m" by (cases e)
        have "st' = ?st1\<lparr>disc := d\<rparr>"
          using Cons.prems True Some res Inl e by (simp add: Let_def)
        then show ?thesis using now [of "?st1\<lparr>disc := d\<rparr>"] by simp
      next
        case (Inr posts)
        show ?thesis
        proof (cases "posts = []")
          case empty: True
          let ?st2 = "?st1\<lparr>disc := d, consecutiveEmptyBatches := consecutiveEmptyBatches ?st1 + 1\<rparr>"
          have rq: "requested ?st2 = requested ?st1" by simp
          show ?thesis
          proof (cases "consecutiveEmptyBatches ?st2 \<ge> maxConsecutiveEmptyBatches")
            case True
            then have "st' = ?st2"
              using Cons.prems \<open>successfulComments st < maxPosts cfg\<close> Some res Inr empty
              by (simp add: Let_def)
            then show ?thesis using now [OF rq] by simp
          next
            case False
            then have "batch_loop cfg bs ?st2 = Some (ex, st')"
              using Cons.prems \<open>successfulComments st < maxPosts cfg\<close> Some res Inr empty
              by (simp add: Let_def)
            then show ?thesis using later [OF rq] by simp
          qed
        next
          case nonempty: False
          let ?st2 = "?st1\<lparr>disc := d, consecutiveEmptyBatches := 0\<rparr>"
          obtain pr st3 where pp: "process_posts cfg (items b) posts ?st2 = (pr, st3)"
            by (cases "process_posts cfg (items b) posts ?st2")
          have rq: "requested st3 = requested ?st1"
            using process_posts_frame [OF pp] by simp
          show ?thesis
          proof (cases pr)
            case (Some m)
            then have "st' = st3"
              using Cons.prems True \<open>discoverInstagramPosts (disc_env b) (criteria cfg) (batchSize cfg) (disc ?st1) = Some res\<close>
                    res Inr nonempty pp by (simp add: Let_def)
            then show ?thesis using now [OF rq] by simp
          next
            case None
            show ?thesis
            proof (cases "successfulComments st3 \<ge> maxPosts cfg")
              case True
              then have "st' = st3"
                using Cons.prems \<open>successfulComments st < maxPosts cfg\<close>
                      \<open>discoverInstagramPosts (disc_env b) (criteria cfg) (batchSize cfg) (disc ?st1) = Some res\<close>
                      res Inr nonempty pp None by (simp add: Let_def)
              then show ?thesis using now [OF rq] by simp
            next
              case False
              then have "batch_loop cfg bs st3 = Some (ex, st')"
                using Cons.prems \<open>successfulComments st < maxPosts cfg\<close>
                      \<open>discoverInstagramPosts (disc_env b) (criteria cfg) (batchSize cfg) (disc ?st1) = Some res\<close>
                      res Inr nonempty pp None by (simp add: Let_def)
              then show ?thesis using later [OF rq] by simp
            qed
          qed
        qed
      qed
    qed
  qed
qed

theorem batch_loop_requested_witness:
  "batch_loop cfg_w (batch_two # replicate 5 batch_empty) st0_w = Some (EmptyBatches, st_end)
   \<and> (\<exists>k. requested st_end = requested st0_w @ replicate k (min 10 (maxPosts cfg_w * 2)))"
  using batch_loop_requested [OF run_w] run_w by blast

lemma like_step_replied:
  "replied (snd (like_step cfg ie postUrl st)) = replied st
   \<and> disc (snd (like_step cfg ie postUrl st)) = disc st
   \<and> successfulComments (snd (like_step cfg ie postUrl st)) = successfulComments st"
  by (auto simp: like_step_def split: prod.splits sum.splits)

lemma process_post_cached:
  "content ie = Returns text \<Longrightarrow> cached ie = Returns True \<Longrightarrow> process_post cfg ie postUrl st = st"
  by (simp add: process_post_def)

lemma process_post_skip:
  assumes "content ie = Returns text" "\<not> wordCount text < 3" "\<not> (mentions_video text \<and> hasVideo ie)"
    and "cached ie = Returns False" "alreadyCommented (reply ie) = Returns True"
  shows "successfulComments (process_post cfg ie postUrl st) = successfulComments st
         \<and> replied (process_post cfg ie postUrl st) = replied st @ [postUrl]"
proof -
  obtain ok st1 where l: "like_step cfg ie postUrl st = (ok, st1)" by (cases "like_step cfg ie postUrl st")
  have f: "replied st1 = replied st" "successfulComments st1 = successfulComments st"
    using like_step_replied [of cfg ie postUrl st] l by simp_all
  have c: "fst (instagramComment (reply ie) postUrl (finalComment cfg) ok) = skip_outcome"
    using comment_skip [OF assms(5)] by simp
  show ?thesis
    using assms(1-4) l f c by (simp add: process_post_def Let_def skip_outcome_def)
qed

lemma process_post_replied:
  "replied (process_post cfg ie postUrl st) = replied st
   \<or> replied (process_post cfg ie postUrl st) = replied st @ [postUrl]"
proof -
  obtain ok st1 where l: "like_step cfg ie postUrl st = (ok, st1)" by (cases "like_step cfg ie postUrl st")
  have f: "replied st1 = replied st" using like_step_replied [of cfg ie postUrl st] l by simp
  show ?thesis
    using l f by (auto simp: process_post_def Let_def split: attempt.splits bool.splits)
qed

lemma process_posts_replied:
  "process_posts cfg ienv posts st = (r, st') \<Longrightarrow> distinct posts \<Longrightarrow> distinct (replied st) \<Longrightarrow>
   set posts \<inter> set (replied st) = {} \<Longrightarrow>
   distinct (replied st') \<and> set (replied st') \<subseteq> set (replied st) \<union> set posts"
proof (induction posts arbitrary: st)
  case Nil
  then show ?case by simp
next
  case (Cons u posts)
  show ?case
  proof (cases "successfulComments st \<ge> maxPosts cfg")
    case True
    then show ?thesis using Cons.prems by auto
  next
    case False
    let ?st1 = "st\<lparr>attempts := attempts st + 1\<rparr>"
    show ?thesis
    proof (cases "report (ienv u)")
      case (Throws m)
      then have "st' = ?st1" using Cons.prems(1) False by (simp add: Let_def)
      then show ?thesis using Cons.prems by auto
    next
      case (Returns x)
      let ?st2 = "process_post cfg (ienv u) u ?st1"
      have p: "process_posts cfg ienv posts ?st2 = (r, st')"
        using Cons.prems(1) False Returns by (simp add: Let_def)
      have rep: "replied ?st2 = replied st \<or> replied ?st2 = replied st @ [u]"
        using process_post_replied [of cfg "ienv u" u ?st1] by simp
      have d2: "distinct (replied ?st2)" using rep Cons.prems(3,4) by auto
      have i2: "set posts \<inter> set (replied ?st2) = {}" using rep Cons.prems(2,4) by auto
      have "distinct posts" using Cons.prems(2) by simp
      from Cons.IH [OF p this d2 i2] rep show ?thesis by auto
    qed
  qed
qed


lemma batch_no_retry:
  assumes d: "discoverInstagramPosts env crit n (disc st) = Some (Inr posts, d, tr)"
    and p: "process_posts cfg ienv posts st2 = (r, st3)"
    and st2: "replied st2 = replied st" "disc st2 = d"
    and dist: "distinct (replied st)"
    and sub: "set (replied st) \<subseteq> set (allDiscoveredPosts (disc st))"
  shows "distinct (replied st3) \<and> set (replied st3) \<subseteq> set (allDiscoveredPosts (disc st3))"
proof -
  have fr: "fresh_inv (allDiscoveredPosts (disc st)) (posts, allDiscoveredPosts d)"
    using discover_returns(1) [OF d] .
  have dp: "distinct posts" using fr by (simp add: fresh_inv_def)
  have ps: "set posts \<subseteq> set (allDiscoveredPosts d)" using fr by (simp add: fresh_inv_def)
  have pf: "set posts \<inter> set (allDiscoveredPosts (disc st)) = {}" using fr by (simp add: fresh_inv_def)
  have grow: "set (allDiscoveredPosts (disc st)) \<subseteq> set (allDiscoveredPosts d)"
    using fr by (simp add: fresh_inv_def)
  have disj: "set posts \<inter> set (replied st2) = {}"
    unfolding st2(1) using pf sub by (auto simp: disjoint_iff)
  have dist2: "distinct (replied st2)" unfolding st2(1) by (rule dist)
  have a1: "distinct (replied st3)" and a2: "set (replied st3) \<subseteq> set (replied st2) \<union> set posts"
    using process_posts_replied [OF p dp dist2 disj] by (rule conjunct1, rule conjunct2)
  have dd: "disc st3 = d" using process_posts_frame [OF p] st2(2) by simp
  have "set (replied st) \<subseteq> set (allDiscoveredPosts d)" using sub grow by (rule subset_trans)
  then have "set (replied st2) \<union> set posts \<subseteq> set (allDiscoveredPosts d)"
    unfolding st2(1) using ps by (rule Un_least)
  with a2 have "set (replied st3) \<subseteq> set (allDiscoveredPosts d)" by (rule subset_trans)
  then show ?thesis unfolding dd using a1 by (rule conjI [rotated])
qed

lemma batch_loop_no_retry:
  "batch_loop cfg bs st = Some (ex, st') \<Longrightarrow> distinct (replied st) \<Longrightarrow>
   set (replied st) \<subseteq> set (allDiscoveredPosts (disc st)) \<Longrightarrow>
   distinct (replied st') \<and> set (replied st') \<subseteq> set (allDiscoveredPosts (disc st'))"
proof (induction bs arbitrary: st)
  case Nil
  then have "st' = st" by (simp split: if_splits)
  then show ?case using Nil.prems(2,3) by simp
next
  case (Cons b bs)
  show ?case
  proof (cases "successfulComments st < maxPosts cfg")
    case False
    then have "st' = st" using Cons.prems(1) by simp
    then show ?thesis using Cons.prems(2,3) by simp
  next
    case True
    let ?rq = "requested st @ [batchSize cfg]"
    have after_batch: "\<And>posts d tr r st3.
        discoverInstagramPosts (disc_env b) (criteria cfg) (batchSize cfg) (disc st) = Some (Inr posts, d, tr) \<Longrightarrow>
        process_posts cfg (items b) posts
          (st\<lparr>requested := ?rq\<rparr>\<lparr>disc := d, consecutiveEmptyBatches := 0\<rparr>) = (r, st3) \<Longrightarrow>
        distinct (replied st3) \<and> set (replied st3) \<subseteq> set (allDiscoveredPosts (disc st3))"
    proof -
      fix posts d tr r st3
      assume f: "discoverInstagramPosts (disc_env b) (criteria cfg) (batchSize cfg) (disc st) = Some (Inr posts, d, tr)"
        and p: "process_posts cfg (items b) posts
                  (st\<lparr>requested := ?rq\<rparr>\<lparr>disc := d, consecutiveEmptyBatches := 0\<rparr>) = (r, st3)"
      show "distinct (replied st3) \<and> set (replied st3) \<subseteq> set (allDiscoveredPosts (disc st3))"
        by (rule batch_no_retry [OF f p _ _ Cons.prems(2,3)]) simp_all
    qed
    have grows: "\<And>d tr. discoverInstagramPosts (disc_env b) (criteria cfg) (batchSize cfg) (disc st) = Some (Inr [], d, tr) \<Longrightarrow>
        set (replied st) \<subseteq> set (allDiscoveredPosts d)"
    proof -
      fix d tr
      assume f: "discoverInstagramPosts (disc_env b) (criteria cfg) (batchSize cfg) (disc st) = Some (Inr [], d, tr)"
      have "set (allDiscoveredPosts (disc st)) \<subseteq> set (allDiscoveredPosts d)"
        using discover_returns(1) [OF f] by (simp add: fresh_inv_def)
      with Cons.prems(3) show "set (replied st) \<subseteq> set (allDiscoveredPosts d)" by (rule subset_trans)
    qed
    from Cons.prems(1) True show ?thesis
    proof (cases rule: batch_loop_step)
      case (threw m d tr)
      have "allDiscoveredPosts d = allDiscoveredPosts (disc st)"
        using discover_error_keeps_seen [OF threw(1)] .
      then show ?thesis using threw(3) Cons.prems(2,3) by simp
    next
      case (exhausted d tr)
      show ?thesis using grows [OF exhausted(1)] exhausted(4) Cons.prems(2) by simp
    next
      case (empty d tr)
      show ?thesis
        by (rule Cons.IH [OF empty(3)]) (use grows [OF empty(1)] Cons.prems(2) in simp_all)
    next
      case (report posts d tr m st3)
      show ?thesis using after_batch [OF report(1,3)] report(5) by simp
    next
      case (target posts d tr st3)
      show ?thesis using after_batch [OF target(1,3)] target(6) by simp
    next
      case (next_batch posts d tr st3)
      have inv: "distinct (replied st3) \<and> set (replied st3) \<subseteq> set (allDiscoveredPosts (disc st3))"
        using after_batch [OF next_batch(1,3)] .
      show ?thesis
        by (rule Cons.IH [OF next_batch(5)]) (use inv in simp_all)
    qed
  qed
qed

text \<open>
  C6. When the prior-action cache reports an existing reply, \<open>instagramComment\<close>
  returns the skip outcome (skipped, not a success) and has issued no page action. In
  the loop, a post for which the loop's own look at the cache (line 666) says so leaves
  the state as it is: no like, no call of the reply action, no count. A post for which
  only the look inside the reply action (line 683) says so is not counted. And over
  a whole run from the start of the action, the reply action is called at most once on
  any post.
\<close>

theorem prior_reply_is_skipped:
  "(alreadyCommented env = Returns True \<longrightarrow>
      instagramComment env postUrl comment skipNavigation = (skip_outcome, [])
      \<and> skipped skip_outcome \<and> \<not> success skip_outcome)
   \<and> (content ie = Returns text \<and> cached ie = Returns True \<longrightarrow>
        process_post cfg ie postUrl st = st)
   \<and> (content ie = Returns text \<and> \<not> wordCount text < 3 \<and> \<not> (mentions_video text \<and> hasVideo ie)
        \<and> cached ie = Returns False \<and> alreadyCommented (reply ie) = Returns True \<longrightarrow>
        successfulComments (process_post cfg ie postUrl st) = successfulComments st
        \<and> replied (process_post cfg ie postUrl st) = replied st @ [postUrl])
   \<and> (batch_loop cfg bs (run_start d0 liked) = Some (ex, st') \<longrightarrow> distinct (replied st'))"
proof (intro conjI)
  show "alreadyCommented env = Returns True \<longrightarrow>
      instagramComment env postUrl comment skipNavigation = (skip_outcome, [])
      \<and> skipped skip_outcome \<and> \<not> success skip_outcome"
    using comment_skip [of env postUrl comment skipNavigation] by (simp add: skip_outcome_def)
next
  show "content ie = Returns text \<and> cached ie = Returns True \<longrightarrow> process_post cfg ie postUrl st = st"
    using process_post_cached [of ie "text" cfg postUrl st] by simp
next
  show "content ie = Returns text \<and> \<not> wordCount text < 3 \<and> \<not> (mentions_video text \<and> hasVideo ie)
        \<and> cached ie = Returns False \<and> alreadyCommented (reply ie) = Returns True \<longrightarrow>
        successfulComments (process_post cfg ie postUrl st) = successfulComments st
        \<and> replied (process_post cfg ie postUrl st) = replied st @ [postUrl]"
  proof (rule impI)
    assume a: "content ie = Returns text \<and> \<not> wordCount text < 3 \<and> \<not> (mentions_video text \<and> hasVideo ie)
        \<and> cached ie = Returns False \<and> alreadyCommented (reply ie) = Returns True"
    show "successfulComments (process_post cfg ie postUrl st) = successfulComments st
        \<and> replied (process_post cfg ie postUrl st) = replied st @ [postUrl]"
      by (rule process_post_skip [of ie "text"]) (use a in simp_all)
  qed
next
  show "batch_loop cfg bs (run_start d0 liked) = Some (ex, st') \<longrightarrow> distinct (replied st')"
  proof (rule impI)
    assume r: "batch_loop cfg bs (run_start d0 liked) = Some (ex, st')"
    have "distinct (replied st') \<and> set (replied st') \<subseteq> set (allDiscoveredPosts (disc st'))"
      by (rule batch_loop_no_retry [OF r]) (simp_all add: run_start_def)
    then show "distinct (replied st')" by (rule conjunct1)
  qed
qed

theorem prior_reply_is_skipped_witness:
  "alreadyCommented (reply item_cached) = Returns True
   \<and> instagramComment (reply item_cached) ''https://www.instagram.com/p/a/'' ''Nice'' False = (skip_outcome, [])
   \<and> skipped skip_outcome \<and> \<not> success skip_outcome
   \<and> content item_known = Returns ''a sunny day outside'' \<and> cached item_known = Returns True
   \<and> process_post cfg_w item_known ''https://www.instagram.com/p/a/'' st0_w = st0_w
   \<and> content item_cached = Returns ''a sunny day outside''
   \<and> \<not> wordCount ''a sunny day outside'' < 3
   \<and> \<not> (mentions_video ''a sunny day outside'' \<and> hasVideo item_cached)
   \<and> cached item_cached = Returns False
   \<and> successfulComments (process_post cfg_w item_cached ''https://www.instagram.com/p/a/'' st0_w)
       = successfulComments st0_w
   \<and> replied (process_post cfg_w item_cached ''https://www.instagram.com/p/a/'' st0_w)
       = replied st0_w @ [''https://www.instagram.com/p/a/'']
   \<and> batch_loop cfg_w (batch_two # replicate 5 batch_empty) (run_start st_w []) = Some (EmptyBatches, st_end)
   \<and> distinct (replied st_end)"
proof -
  have h1: "alreadyCommented (reply item_cached) = Returns True"
    by (simp add: item_cached_def)
  have h2: "content item_known = Returns ''a sunny day outside'' \<and> cached item_known = Returns True"
    by (simp add: item_known_def item_ok_def)
  have h3: "content item_cached = Returns ''a sunny day outside''
            \<and> \<not> wordCount ''a sunny day outside'' < 3
            \<and> \<not> (mentions_video ''a sunny day outside'' \<and> hasVideo item_cached)
            \<and> cached item_cached = Returns False
            \<and> alreadyCommented (reply item_cached) = Returns True"
    by code_simp
  have h4: "batch_loop cfg_w (batch_two # replicate 5 batch_empty) (run_start st_w []) = Some (EmptyBatches, st_end)"
    using run_w by (simp add: st0_w_def)
  note t1 = prior_reply_is_skipped
    [of "reply item_cached" "''https://www.instagram.com/p/a/''" "''Nice''" False
        item_known "''a sunny day outside''" cfg_w st0_w "batch_two # replicate 5 batch_empty"
        st_w "[]" EmptyBatches st_end]
  note t2 = prior_reply_is_skipped
    [of "reply item_cached" "''https://www.instagram.com/p/a/''" "''Nice''" False
        item_cached "''a sunny day outside''" cfg_w st0_w "batch_two # replicate 5 batch_empty"
        st_w "[]" EmptyBatches st_end]
  have c1: "instagramComment (reply item_cached) ''https://www.instagram.com/p/a/'' ''Nice'' False = (skip_outcome, [])
            \<and> skipped skip_outcome \<and> \<not> success skip_outcome"
    using t1 [THEN conjunct1, THEN mp, OF h1] .
  have c2: "process_post cfg_w item_known ''https://www.instagram.com/p/a/'' st0_w = st0_w"
    using t1 [THEN conjunct2, THEN conjunct1, THEN mp, OF h2] .
  have c3: "successfulComments (process_post cfg_w item_cached ''https://www.instagram.com/p/a/'' st0_w)
              = successfulComments st0_w
            \<and> replied (process_post cfg_w item_cached ''https://www.instagram.com/p/a/'' st0_w)
              = replied st0_w @ [''https://www.instagram.com/p/a/'']"
    using t2 [THEN conjunct2, THEN conjunct2, THEN conjunct1, THEN mp, OF h3] .
  have c4: "distinct (replied st_end)"
    using t1 [THEN conjunct2, THEN conjunct2, THEN conjunct2, THEN mp, OF h4] .
  show ?thesis using h1 c1 h2 c2 h3 c3 h4 c4 by blast
qed

end
